theory Spec2Isabelle
  imports
    Main
    "HOL-Library.Monad_Syntax"
    "HOL-Library.Char_ord"
    "HOL-Library.List_Lexorder"
    "HOL-Library.Multiset"
begin

section \<open>The linked-list queue of queue.c\<close>

text \<open>
  The queue of \<^verbatim>\<open>queue.c\<close> is a singly linked list of heap cells, each owning a
  heap-allocated C string, with a header cell holding the head pointer, the tail pointer
  and the element count. The functions below follow the C text statement by statement
  over an explicit memory. A pointer is an \<open>addr option\<close> (\<open>None\<close> is \<^verbatim>\<open>NULL\<close>).
  Every function that dereferences a pointer or loops returns an \<open>option\<close>: \<open>None\<close>
  stands for a run that has no defined result (a read through \<^verbatim>\<open>NULL\<close> or through a
  pointer to no live block, a string read that runs off its buffer, a loop or a recursion
  that never ends).

  The header \<^verbatim>\<open>queue.h\<close> is not part of the sources; the two structs are taken from
  the way \<^verbatim>\<open>queue.c\<close> uses their fields. The fields \<^verbatim>\<open>value\<close>, \<^verbatim>\<open>next\<close> and
  \<^verbatim>\<open>size\<close> are called \<open>ele_value\<close>, \<open>ele_next\<close> and \<open>qsize\<close> here.

  Integers. \<^verbatim>\<open>size_t\<close> has 64 bits and \<^verbatim>\<open>int\<close> 32, and a conversion between them
  keeps the low bits. \<^verbatim>\<open>q_remove_head\<close> is modelled with both conversions of its
  \<^verbatim>\<open>strLen\<close>, so what it copies is what the C text copies for a string of any
  length. In the two insertions \<^verbatim>\<open>strLen\<close> is the number \<open>strlen + 1\<close> itself, which
  the \<^verbatim>\<open>int\<close> variable holds for a text shorter than \<^verbatim>\<open>INT_MAX\<close> bytes; the
  theorems that say which string an insertion stores assume such a text. The element
  count is a mathematical integer: the model covers fewer than \<^verbatim>\<open>INT_MAX\<close> elements.
\<close>

subsection \<open>Memory\<close>

type_synonym addr = nat

record list_ele_t =
  ele_value :: "addr option"
  ele_next :: "addr option"

record queue_t =
  head :: "addr option"
  tail :: "addr option"
  qsize :: int

record mem =
  queues :: "addr \<rightharpoonup> queue_t"
  nodes :: "addr \<rightharpoonup> list_ele_t"
  bufs :: "addr \<rightharpoonup> char list"

text \<open>
  \<^verbatim>\<open>malloc\<close> either fails or hands out a block that is not live. Its answer is an input
  of the model (\<open>None\<close> for failure); the theorems assume that a block handed out is
  not live. A new block has indeterminate contents in C; the model fills it with a fixed
  value, which the code overwrites before it reads. \<^verbatim>\<open>free(NULL)\<close> does nothing.
\<close>

abbreviation NUL :: char where
  "NUL \<equiv> CHR 0x00"


definition malloc_ele :: "addr option \<Rightarrow> mem \<Rightarrow> addr option \<times> mem" where
  "malloc_ele r m =
     (case r of
        None \<Rightarrow> (None, m)
      | Some a \<Rightarrow> (Some a, m\<lparr>nodes := (nodes m)(a \<mapsto> \<lparr>ele_value = None, ele_next = None\<rparr>)\<rparr>))"

definition malloc_chars :: "addr option \<Rightarrow> nat \<Rightarrow> mem \<Rightarrow> addr option \<times> mem" where
  "malloc_chars r n m =
     (case r of
        None \<Rightarrow> (None, m)
      | Some a \<Rightarrow> (Some a, m\<lparr>bufs := (bufs m)(a \<mapsto> replicate n NUL)\<rparr>))"

definition free_ele :: "addr option \<Rightarrow> mem \<Rightarrow> mem" where
  "free_ele p m = (case p of None \<Rightarrow> m | Some a \<Rightarrow> m\<lparr>nodes := (nodes m)(a := None)\<rparr>)"

definition free_chars :: "addr option \<Rightarrow> mem \<Rightarrow> mem" where
  "free_chars p m = (case p of None \<Rightarrow> m | Some a \<Rightarrow> m\<lparr>bufs := (bufs m)(a := None)\<rparr>)"

subsection \<open>Integer conversions\<close>

text \<open>
  The value of a \<^verbatim>\<open>size_t\<close> converted to \<^verbatim>\<open>int\<close>, and of an \<^verbatim>\<open>int\<close> converted
  to \<^verbatim>\<open>size_t\<close>.
\<close>

definition int_of_size_t :: "nat \<Rightarrow> int" where
  "int_of_size_t n = (let r = int (n mod 2 ^ 32) in if r < 2 ^ 31 then r else r - 2 ^ 32)"

definition size_t_of_int :: "int \<Rightarrow> nat" where
  "size_t_of_int i = nat (i mod 2 ^ 64)"

subsection \<open>C strings\<close>

text \<open>
  A buffer is the list of its bytes. The string it holds ends before its first NUL byte;
  a buffer without one holds no string, and reading it as a string has no defined result.
\<close>

definition c_string :: "char list \<Rightarrow> string option" where
  "c_string b = (if NUL \<in> set b then Some (takeWhile (\<lambda>c. c \<noteq> NUL) b) else None)"

definition strlen :: "char list \<Rightarrow> nat option" where
  "strlen b = map_option length (c_string b)"

text \<open>
  \<^verbatim>\<open>strcmp\<close> compares bytes as unsigned values up to the first difference; the end of
  a string counts as the byte 0.
\<close>

fun strcmp_s :: "string \<Rightarrow> string \<Rightarrow> int" where
  "strcmp_s [] [] = 0"
| "strcmp_s [] (y # ys) = - int (of_char y)"
| "strcmp_s (x # xs) [] = int (of_char x)"
| "strcmp_s (x # xs) (y # ys) =
     (if x = y then strcmp_s xs ys else int (of_char x) - int (of_char y))"

definition strcmp :: "char list \<Rightarrow> char list \<Rightarrow> int option" where
  "strcmp b1 b2 = do { s1 \<leftarrow> c_string b1; s2 \<leftarrow> c_string b2; Some (strcmp_s s1 s2) }"

text \<open>
  \<^verbatim>\<open>snprintf(dst, sz, "%s", src)\<close>: with \<open>sz = 0\<close> nothing is written; otherwise the
  first \<open>sz - 1\<close> bytes of the string (all of it when it is shorter) and one NUL byte
  are written at the start of \<open>dst\<close>. Writing past the end of \<open>dst\<close> has no defined
  result.
\<close>

definition snprintf_s :: "char list \<Rightarrow> nat \<Rightarrow> char list \<Rightarrow> char list option" where
  "snprintf_s dst sz src = do {
     str \<leftarrow> c_string src;
     if sz = 0 then Some dst
     else (let w = take (sz - 1) str @ [NUL]
           in if length w \<le> length dst then Some (w @ drop (length w) dst) else None)
   }"

text \<open>The macro \<^verbatim>\<open>strlcpy(dst, src, sz)\<close> of the source, on two buffers in memory.\<close>

definition strlcpy :: "mem \<Rightarrow> addr \<Rightarrow> addr \<Rightarrow> nat \<Rightarrow> mem option" where
  "strlcpy m dst src sz = do {
     d \<leftarrow> bufs m dst;
     sb \<leftarrow> bufs m src;
     d' \<leftarrow> snprintf_s d sz sb;
     Some (m\<lparr>bufs := (bufs m)(dst \<mapsto> d')\<rparr>)
   }"

subsection \<open>Creation, insertion, removal, size\<close>


text \<open>
  \<open>q_insert_head r1 r2 m q s\<close>: \<open>r1\<close> and \<open>r2\<close> are the answers of the two calls of
  \<^verbatim>\<open>malloc\<close>, \<open>q\<close> the queue pointer and \<open>s\<close> the address of the caller's string.
\<close>

definition q_insert_head ::
  "addr option \<Rightarrow> addr option \<Rightarrow> mem \<Rightarrow> addr option \<Rightarrow> addr \<Rightarrow> (bool \<times> mem) option" where
  "q_insert_head r1 r2 m q s =
     (case q of
        None \<Rightarrow> Some (False, m)
      | Some qa \<Rightarrow> do {
          sb \<leftarrow> bufs m s;
          n \<leftarrow> strlen sb;
          let strLen = int n + 1;
          let (newHead, m1) = malloc_ele r1 m;
          let (val, m2) = malloc_chars r2 (nat strLen) m1;
          (case (newHead, val) of
             (Some nh, Some v) \<Rightarrow> do {
               m3 \<leftarrow> strlcpy m2 v s (nat strLen);
               e \<leftarrow> nodes m3 nh;
               Q \<leftarrow> queues m3 qa;
               let m4 = m3\<lparr>nodes := (nodes m3)(nh \<mapsto> e\<lparr>ele_value := Some v, ele_next := head Q\<rparr>)\<rparr>;
               let Q1 = Q\<lparr>head := Some nh\<rparr>;
               let Q2 = (if qsize Q1 = 0 then Q1\<lparr>tail := Some nh\<rparr> else Q1);
               Some (True, m4\<lparr>queues := (queues m4)(qa \<mapsto> Q2\<lparr>qsize := qsize Q2 + 1\<rparr>)\<rparr>)
             }
           | _ \<Rightarrow> Some (False, free_chars val (free_ele newHead m2)))
        })"

definition q_insert_tail ::
  "addr option \<Rightarrow> addr option \<Rightarrow> mem \<Rightarrow> addr option \<Rightarrow> addr \<Rightarrow> (bool \<times> mem) option" where
  "q_insert_tail r1 r2 m q s =
     (case q of
        None \<Rightarrow> Some (False, m)
      | Some qa \<Rightarrow> do {
          sb \<leftarrow> bufs m s;
          n \<leftarrow> strlen sb;
          let strLen = int n + 1;
          let (newTail, m1) = malloc_ele r1 m;
          let (val, m2) = malloc_chars r2 (nat strLen) m1;
          (case (newTail, val) of
             (Some nt, Some v) \<Rightarrow> do {
               m3 \<leftarrow> strlcpy m2 v s (nat strLen);
               e \<leftarrow> nodes m3 nt;
               let m4 = m3\<lparr>nodes := (nodes m3)(nt \<mapsto> e\<lparr>ele_value := Some v, ele_next := None\<rparr>)\<rparr>;
               Q \<leftarrow> queues m4 qa;
               m5 \<leftarrow> (if qsize Q = 0
                      then Some (m4\<lparr>queues := (queues m4)(qa \<mapsto> Q\<lparr>head := Some nt\<rparr>)\<rparr>)
                      else do {
                        t \<leftarrow> tail Q;
                        te \<leftarrow> nodes m4 t;
                        Some (m4\<lparr>nodes := (nodes m4)(t \<mapsto> te\<lparr>ele_next := Some nt\<rparr>)\<rparr>)
                      });
               Q' \<leftarrow> queues m5 qa;
               Some (True, m5\<lparr>queues := (queues m5)(qa \<mapsto> Q'\<lparr>tail := Some nt, qsize := qsize Q' + 1\<rparr>)\<rparr>)
             }
           | _ \<Rightarrow> Some (False, free_chars val (free_ele newTail m2)))
        })"

text \<open>
  \<open>q_remove_head m q sp bufsize\<close>: \<open>sp\<close> is the address of the caller's buffer and
  \<open>bufsize\<close> the capacity the caller states for it. \<^verbatim>\<open>int strLen\<close> takes the
  \<^verbatim>\<open>size_t\<close> value \<open>strlen + 1\<close>, and in \<^verbatim>\<open>bufsize > strLen\<close> and in the
  assignment to \<^verbatim>\<open>size_t realBufSize\<close> it is converted back.
\<close>

definition q_remove_head ::
  "mem \<Rightarrow> addr option \<Rightarrow> addr option \<Rightarrow> nat \<Rightarrow> (bool \<times> mem) option" where
  "q_remove_head m q sp bufsize =
     (case q of
        None \<Rightarrow> Some (False, m)
      | Some qa \<Rightarrow>
          (case sp of
             None \<Rightarrow> Some (False, m)
           | Some spa \<Rightarrow> do {
               Q \<leftarrow> queues m qa;
               (case head Q of
                  None \<Rightarrow> Some (False, m)
                | Some rmElem \<Rightarrow> do {
                    e \<leftarrow> nodes m rmElem;
                    v \<leftarrow> ele_value e;
                    vb \<leftarrow> bufs m v;
                    n \<leftarrow> strlen vb;
                    let strLen = int_of_size_t (n + 1);
                    let realBufSize =
                      (if bufsize > size_t_of_int strLen then size_t_of_int strLen else bufsize);
                    m1 \<leftarrow> strlcpy m spa v realBufSize;
                    let Q1 = Q\<lparr>head := ele_next e\<rparr>;
                    let m2 = m1\<lparr>queues := (queues m1)(qa \<mapsto> Q1\<lparr>qsize := qsize Q1 - 1\<rparr>)\<rparr>;
                    Some (True, free_ele (Some rmElem) (free_chars (ele_value e) m2))
                  })
             }))"

definition q_size :: "mem \<Rightarrow> addr option \<Rightarrow> int option" where
  "q_size m q = (case q of None \<Rightarrow> Some 0 | Some qa \<Rightarrow> map_option qsize (queues m qa))"

subsection \<open>Reversal\<close>

text \<open>The \<^verbatim>\<open>while\<close> loop of \<^verbatim>\<open>q_reverse\<close>; it moves \<open>q->head\<close> itself along the list.\<close>

partial_function (option) reverse_loop :: "mem \<Rightarrow> addr \<Rightarrow> addr option \<Rightarrow> mem option" where
  "reverse_loop m qa prev = do {
     Q \<leftarrow> queues m qa;
     (case head Q of
        None \<Rightarrow> Some m
      | Some h \<Rightarrow> do {
          e \<leftarrow> nodes m h;
          let nxt = ele_next e;
          let m1 = m\<lparr>nodes := (nodes m)(h \<mapsto> e\<lparr>ele_next := prev\<rparr>)\<rparr>;
          reverse_loop (m1\<lparr>queues := (queues m1)(qa \<mapsto> Q\<lparr>head := nxt\<rparr>)\<rparr>) qa (Some h)
        })
   }"

definition q_reverse :: "mem \<Rightarrow> addr option \<Rightarrow> mem option" where
  "q_reverse m q =
     (case q of
        None \<Rightarrow> Some m
      | Some qa \<Rightarrow> do {
          Q \<leftarrow> queues m qa;
          (case head Q of
             None \<Rightarrow> Some m
           | Some h \<Rightarrow> do {
               let tmp = head Q;
               m1 \<leftarrow> reverse_loop m qa None;
               Q1 \<leftarrow> queues m1 qa;
               let Q2 = Q1\<lparr>head := tail Q1\<rparr>;
               Some (m1\<lparr>queues := (queues m1)(qa \<mapsto> Q2\<lparr>tail := tmp\<rparr>)\<rparr>)
             })
        })"

subsection \<open>Merge sort\<close>

definition list_cmp :: "mem \<Rightarrow> addr \<Rightarrow> addr \<Rightarrow> bool option" where
  "list_cmp m l1 l2 = do {
     e1 \<leftarrow> nodes m l1;
     v1 \<leftarrow> ele_value e1;
     b1 \<leftarrow> bufs m v1;
     e2 \<leftarrow> nodes m l2;
     v2 \<leftarrow> ele_value e2;
     b2 \<leftarrow> bufs m v2;
     c \<leftarrow> strcmp b1 b2;
     Some (if c \<ge> 0 then False else True)
   }"

partial_function (option) merge :: "mem \<Rightarrow> addr option \<Rightarrow> addr option \<Rightarrow> (addr option \<times> mem) option" where
  "merge m l1 l2 =
     (case l2 of
        None \<Rightarrow> Some (l1, m)
      | Some a2 \<Rightarrow>
          (case l1 of
             None \<Rightarrow> Some (l2, m)
           | Some a1 \<Rightarrow> do {
               c \<leftarrow> list_cmp m a1 a2;
               if c then do {
                 e1 \<leftarrow> nodes m a1;
                 (r, m') \<leftarrow> merge m (ele_next e1) l2;
                 e1' \<leftarrow> nodes m' a1;
                 Some (l1, m'\<lparr>nodes := (nodes m')(a1 \<mapsto> e1'\<lparr>ele_next := r\<rparr>)\<rparr>)
               } else do {
                 e2 \<leftarrow> nodes m a2;
                 (r, m') \<leftarrow> merge m l1 (ele_next e2);
                 e2' \<leftarrow> nodes m' a2;
                 Some (l2, m'\<lparr>nodes := (nodes m')(a2 \<mapsto> e2'\<lparr>ele_next := r\<rparr>)\<rparr>)
               }
             }))"

text \<open>
  The splitting loop of \<^verbatim>\<open>merge_sort\<close>, from the values \<open>fast\<close> and \<open>slow\<close> have when
  it is entered to the value \<open>slow\<close> has when it is left. The C text reads
  \<^verbatim>\<open>slow->next\<close> in the next round or right after the loop, so a \<open>slow\<close> that
  becomes \<^verbatim>\<open>NULL\<close> has no defined result; the model says so where it is assigned.
\<close>

partial_function (option) split_loop :: "mem \<Rightarrow> addr option \<Rightarrow> addr \<Rightarrow> addr option" where
  "split_loop m fast slow =
     (case fast of
        None \<Rightarrow> Some slow
      | Some f \<Rightarrow> do {
          fe \<leftarrow> nodes m f;
          (case ele_next fe of
             None \<Rightarrow> Some slow
           | Some fn \<Rightarrow> do {
               se \<leftarrow> nodes m slow;
               slow' \<leftarrow> ele_next se;
               fne \<leftarrow> nodes m fn;
               split_loop m (ele_next fne) slow'
             })
        })"

partial_function (option) merge_sort :: "mem \<Rightarrow> addr option \<Rightarrow> (addr option \<times> mem) option" where
  "merge_sort m hd0 =
     (case hd0 of
        None \<Rightarrow> Some (hd0, m)
      | Some h \<Rightarrow> do {
          he \<leftarrow> nodes m h;
          (case ele_next he of
             None \<Rightarrow> Some (hd0, m)
           | Some hn \<Rightarrow> do {
               slow \<leftarrow> split_loop m (ele_next he) h;
               se \<leftarrow> nodes m slow;
               let fast = ele_next se;
               let m1 = m\<lparr>nodes := (nodes m)(slow \<mapsto> se\<lparr>ele_next := None\<rparr>)\<rparr>;
               (l1, m2) \<leftarrow> merge_sort m1 hd0;
               (l2, m3) \<leftarrow> merge_sort m2 fast;
               merge m3 l1 l2
             })
        })"

text \<open>The loop of \<^verbatim>\<open>q_sort\<close> that walks to the last cell.\<close>

partial_function (option) last_loop :: "mem \<Rightarrow> addr \<Rightarrow> addr option" where
  "last_loop m tmp = do {
     e \<leftarrow> nodes m tmp;
     (case ele_next e of
        None \<Rightarrow> Some tmp
      | Some n \<Rightarrow> last_loop m n)
   }"

definition q_sort :: "mem \<Rightarrow> addr option \<Rightarrow> mem option" where
  "q_sort m q =
     (case q of
        None \<Rightarrow> Some m
      | Some qa \<Rightarrow> do {
          Q \<leftarrow> queues m qa;
          (case head Q of
             None \<Rightarrow> Some m
           | Some h \<Rightarrow> do {
               he \<leftarrow> nodes m h;
               (case ele_next he of
                  None \<Rightarrow> Some m
                | Some hn \<Rightarrow> do {
                    (r, m1) \<leftarrow> merge_sort m (head Q);
                    Q1 \<leftarrow> queues m1 qa;
                    let m2 = m1\<lparr>queues := (queues m1)(qa \<mapsto> Q1\<lparr>head := r\<rparr>)\<rparr>;
                    tmp \<leftarrow> r;
                    t \<leftarrow> last_loop m2 tmp;
                    Q2 \<leftarrow> queues m2 qa;
                    Some (m2\<lparr>queues := (queues m2)(qa \<mapsto> Q2\<lparr>tail := Some t\<rparr>)\<rparr>)
                  })
             })
        })"

subsection \<open>The list a queue holds\<close>

text \<open>
  \<open>islist h p as\<close>: following \<open>ele_next\<close> from the pointer \<open>p\<close> visits exactly the
  live cells \<open>as\<close>, in this order, and then reaches \<^verbatim>\<open>NULL\<close>.
\<close>

primrec islist :: "(addr \<rightharpoonup> list_ele_t) \<Rightarrow> addr option \<Rightarrow> addr list \<Rightarrow> bool" where
  "islist h p [] = (p = None)"
| "islist h p (a # as) =
     (p = Some a \<and> (case h a of None \<Rightarrow> False | Some e \<Rightarrow> islist h (ele_next e) as))"

text \<open>The pointer reached from \<open>p\<close> after \<open>n\<close> steps along \<open>ele_next\<close>.\<close>

primrec nth_cell :: "(addr \<rightharpoonup> list_ele_t) \<Rightarrow> addr option \<Rightarrow> nat \<Rightarrow> addr option" where
  "nth_cell h p 0 = p"
| "nth_cell h p (Suc n) =
     (case p of
        None \<Rightarrow> None
      | Some a \<Rightarrow> (case h a of None \<Rightarrow> None | Some e \<Rightarrow> nth_cell h (ele_next e) n))"

definition valptr :: "mem \<Rightarrow> addr \<Rightarrow> addr option" where
  "valptr m a = do { e \<leftarrow> nodes m a; ele_value e }"

text \<open>The string a cell owns.\<close>

definition payload :: "mem \<Rightarrow> addr \<Rightarrow> string option" where
  "payload m a = do { v \<leftarrow> valptr m a; b \<leftarrow> bufs m v; c_string b }"

text \<open>
  \<open>queue_ok m qa as\<close>: the queue at \<open>qa\<close> holds the cells \<open>as\<close>: they are the list
  from its head, the count is their number, the tail pointer is the last of them when
  there is one, every cell owns a string, and no two cells share a string buffer.
\<close>

definition queue_ok :: "mem \<Rightarrow> addr \<Rightarrow> addr list \<Rightarrow> bool" where
  "queue_ok m qa as =
     (case queues m qa of
        None \<Rightarrow> False
      | Some Q \<Rightarrow>
          islist (nodes m) (head Q) as \<and>
          qsize Q = int (length as) \<and>
          (as \<noteq> [] \<longrightarrow> tail Q = Some (last as)) \<and>
          None \<notin> set (map (payload m) as) \<and>
          distinct (map (valptr m) as))"

text \<open>
  The structural invariant in the words of the specification: the count is 0 exactly when
  head and tail are both absent; a positive count is the number of cells on the walk from
  head to tail, and the tail cell has no successor.
\<close>

definition structural_invariant :: "mem \<Rightarrow> addr \<Rightarrow> bool" where
  "structural_invariant m qa =
     (case queues m qa of
        None \<Rightarrow> False
      | Some Q \<Rightarrow>
          0 \<le> qsize Q \<and>
          ((qsize Q = 0) = (head Q = None \<and> tail Q = None)) \<and>
          (0 < qsize Q \<longrightarrow>
             (case tail Q of
                None \<Rightarrow> False
              | Some t \<Rightarrow>
                  nth_cell (nodes m) (head Q) (nat (qsize Q) - 1) = Some t \<and>
                  (case nodes m t of None \<Rightarrow> False | Some e \<Rightarrow> ele_next e = None))))"

text \<open>
  The invariant the code keeps: as above, but the count is 0 exactly when the head is
  absent, and nothing is said about the tail pointer of an empty queue.
\<close>

definition code_invariant :: "mem \<Rightarrow> addr \<Rightarrow> bool" where
  "code_invariant m qa =
     (case queues m qa of
        None \<Rightarrow> False
      | Some Q \<Rightarrow>
          0 \<le> qsize Q \<and>
          ((qsize Q = 0) = (head Q = None)) \<and>
          (0 < qsize Q \<longrightarrow>
             (case tail Q of
                None \<Rightarrow> False
              | Some t \<Rightarrow>
                  nth_cell (nodes m) (head Q) (nat (qsize Q) - 1) = Some t \<and>
                  (case nodes m t of None \<Rightarrow> False | Some e \<Rightarrow> ele_next e = None))))"

subsection \<open>Merge sort on lists\<close>

text \<open>
  What \<^verbatim>\<open>merge\<close> and \<^verbatim>\<open>merge_sort\<close> compute, on the list of cells: \<open>lt x y\<close>
  is the answer of \<^verbatim>\<open>list_cmp\<close>, and the list is split after its first
  \<open>(n + 1) div 2\<close> cells, where the slow cursor stops.
\<close>

fun merge_abs :: "('a \<Rightarrow> 'a \<Rightarrow> bool) \<Rightarrow> 'a list \<Rightarrow> 'a list \<Rightarrow> 'a list" where
  "merge_abs lt xs [] = xs"
| "merge_abs lt [] ys = ys"
| "merge_abs lt (x # xs) (y # ys) =
     (if lt x y then x # merge_abs lt xs (y # ys) else y # merge_abs lt (x # xs) ys)"

function msort_abs :: "('a \<Rightarrow> 'a \<Rightarrow> bool) \<Rightarrow> 'a list \<Rightarrow> 'a list" where
  "msort_abs lt xs =
     (if length xs \<le> 1 then xs
      else merge_abs lt (msort_abs lt (take ((length xs + 1) div 2) xs))
                        (msort_abs lt (drop ((length xs + 1) div 2) xs)))"
  by pat_completeness auto
termination
  by (relation "measure (\<lambda>(lt, xs). length xs)") auto

declare msort_abs.simps [simp del]


text \<open>
  \<open>relinked m m' S\<close>: the memory \<open>m'\<close> differs from \<open>m\<close> at most in the
  \<open>ele_next\<close> fields of the cells in \<open>S\<close>.
\<close>

definition relinked :: "mem \<Rightarrow> mem \<Rightarrow> addr set \<Rightarrow> bool" where
  "relinked m m' S =
     (queues m' = queues m \<and> bufs m' = bufs m \<and>
      (\<forall>b. map_option ele_value (nodes m' b) = map_option ele_value (nodes m b)) \<and>
      (\<forall>b. b \<notin> S \<longrightarrow> nodes m' b = nodes m b))"

subsection \<open>The caller's buffer after a removal\<close>

text \<open>
  The value \<^verbatim>\<open>realBufSize\<close> gets in \<^verbatim>\<open>q_remove_head\<close> for the capacity
  \<open>bufsize\<close> and a string of \<open>n\<close> bytes.
\<close>

definition real_buf_size :: "nat \<Rightarrow> nat \<Rightarrow> nat" where
  "real_buf_size bufsize n =
     (if bufsize > size_t_of_int (int_of_size_t (n + 1)) then size_t_of_int (int_of_size_t (n + 1))
      else bufsize)"

text \<open>
  The bytes of the caller's buffer \<open>d\<close> after the string \<open>str\<close> has been copied into it
  by \<^verbatim>\<open>snprintf\<close> with the size \<open>bufsize\<close>.
\<close>

definition out_bytes :: "string \<Rightarrow> nat \<Rightarrow> char list \<Rightarrow> char list" where
  "out_bytes str bufsize d =
     (if bufsize = 0 then d
      else take (bufsize - 1) str @ NUL # drop (min (length str) (bufsize - 1) + 1) d)"

subsection \<open>Example memories\<close>

text \<open>
  A queue at address 0 with the single cell 1 holding \<open>''hello''\<close>, a caller's buffer of
  four bytes at 20 and a caller's string at 21.
\<close>

definition ex_one :: mem where
  "ex_one =
     \<lparr>queues = [0 \<mapsto> \<lparr>head = Some 1, tail = Some 1, qsize = 1\<rparr>],
      nodes = [1 \<mapsto> \<lparr>ele_value = Some 2, ele_next = None\<rparr>],
      bufs = [2 \<mapsto> ''hello'' @ [NUL], 20 \<mapsto> ''XXXX'', 21 \<mapsto> ''pear'' @ [NUL]]\<rparr>"

text \<open>
  A queue at address 0 with the cells 1, 3 and 5 holding \<open>''cherry''\<close>, \<open>''banana''\<close>
  and \<open>''apple''\<close>.
\<close>

definition ex_three :: mem where
  "ex_three =
     \<lparr>queues = [0 \<mapsto> \<lparr>head = Some 1, tail = Some 5, qsize = 3\<rparr>],
      nodes = [1 \<mapsto> \<lparr>ele_value = Some 2, ele_next = Some 3\<rparr>,
               3 \<mapsto> \<lparr>ele_value = Some 4, ele_next = Some 5\<rparr>,
               5 \<mapsto> \<lparr>ele_value = Some 6, ele_next = None\<rparr>],
      bufs = [2 \<mapsto> ''cherry'' @ [NUL], 4 \<mapsto> ''banana'' @ [NUL], 6 \<mapsto> ''apple'' @ [NUL]]\<rparr>"

text \<open>A queue at address 0 with the cells 1 and 3, both holding \<open>''a''\<close>.\<close>

definition ex_equal :: mem where
  "ex_equal =
     \<lparr>queues = [0 \<mapsto> \<lparr>head = Some 1, tail = Some 3, qsize = 2\<rparr>],
      nodes = [1 \<mapsto> \<lparr>ele_value = Some 2, ele_next = Some 3\<rparr>,
               3 \<mapsto> \<lparr>ele_value = Some 4, ele_next = None\<rparr>],
      bufs = [2 \<mapsto> ''a'' @ [NUL], 4 \<mapsto> ''a'' @ [NUL]]\<rparr>"

text \<open>Two separate one-cell lists, the cells 1 and 3, both holding \<open>''a''\<close>.\<close>

definition ex_runs :: mem where
  "ex_runs =
     \<lparr>queues = Map.empty,
      nodes = [1 \<mapsto> \<lparr>ele_value = Some 2, ele_next = None\<rparr>,
               3 \<mapsto> \<lparr>ele_value = Some 4, ele_next = None\<rparr>],
      bufs = [2 \<mapsto> ''a'' @ [NUL], 4 \<mapsto> ''a'' @ [NUL]]\<rparr>"

text \<open>
  An empty queue at address 0 and the caller's strings \<open>''banana''\<close>, \<open>''apple''\<close> and
  \<open>''cherry''\<close> at 10, 11 and 12.
\<close>

definition ex_empty :: mem where
  "ex_empty =
     \<lparr>queues = [0 \<mapsto> \<lparr>head = None, tail = None, qsize = 0\<rparr>],
      nodes = Map.empty,
      bufs = [10 \<mapsto> ''banana'' @ [NUL], 11 \<mapsto> ''apple'' @ [NUL], 12 \<mapsto> ''cherry'' @ [NUL],
              20 \<mapsto> ''XXXX'']\<rparr>"


section \<open>Properties\<close>

subsection \<open>C strings\<close>


lemma of_char_NUL_iff: "(of_char c = (0::nat)) = (c = NUL)"
proof -
  have "(of_char NUL :: nat) = 0" by simp
  then show ?thesis using of_char_eq_iff[of c NUL, where ?'a = nat] by simp
qed

lemma of_char_pos: "c \<noteq> NUL \<Longrightarrow> 0 < (of_char c :: nat)"
  using of_char_NUL_iff[of c] by auto

lemma strcmp_s_less: "NUL \<notin> set a \<Longrightarrow> NUL \<notin> set b \<Longrightarrow> (strcmp_s a b < 0) = (a < b)"
proof (induction a b rule: strcmp_s.induct)
  case (2 y ys)
  then have "y \<noteq> NUL" by auto
  then show ?case using of_char_pos[of y] by simp
next
  case (4 x xs y ys)
  then show ?case by (auto simp: less_char_def)
qed simp_all

lemma strcmp_s_eq: "NUL \<notin> set a \<Longrightarrow> NUL \<notin> set b \<Longrightarrow> (strcmp_s a b = 0) = (a = b)"
proof (induction a b rule: strcmp_s.induct)
  case (2 y ys)
  then have "y \<noteq> NUL" by auto
  then show ?case using of_char_pos[of y] by simp
next
  case (3 x xs)
  then have "x \<noteq> NUL" by auto
  then show ?case using of_char_pos[of x] by simp
next
  case (4 x xs y ys)
  then show ?case by (auto)
qed simp_all

lemma strcmp_s_le: "NUL \<notin> set a \<Longrightarrow> NUL \<notin> set b \<Longrightarrow> (strcmp_s a b \<le> 0) = (a \<le> b)"
  using strcmp_s_less[of a b] strcmp_s_eq[of a b] by auto


lemma c_string_nonul: "c_string b = Some s \<Longrightarrow> NUL \<notin> set s"
  by (auto simp: c_string_def split: if_splits dest: set_takeWhileD)

lemma c_string_terminated: "NUL \<notin> set s \<Longrightarrow> c_string (s @ NUL # r) = Some s"
  by (simp add: c_string_def takeWhile_append)

lemma takeWhile_split_first: "x \<in> set b \<Longrightarrow> \<exists>r. b = takeWhile (\<lambda>c. c \<noteq> x) b @ x # r"
  by (induction b) auto

lemma c_string_prefix: "c_string b = Some s \<Longrightarrow> \<exists>r. b = s @ NUL # r"
  using takeWhile_split_first[of NUL b] by (auto simp: c_string_def split: if_splits)

lemma c_string_length: "c_string b = Some s \<Longrightarrow> length s < length b"
  using c_string_prefix[of b s] by auto


subsection \<open>Lists in the heap\<close>


lemma islist_None [simp]: "islist h None as = (as = [])"
  by (cases as) auto

lemma islist_Some: "islist h (Some a) as = (\<exists>e bs. as = a # bs \<and> h a = Some e \<and> islist h (ele_next e) bs)"
  by (cases as) (auto split: option.splits)

lemma islist_fun: "islist h p as \<Longrightarrow> islist h p bs \<Longrightarrow> as = bs"
proof (induction as arbitrary: p bs)
  case Nil
  then show ?case by simp
next
  case (Cons a as)
  then show ?case by (cases bs) (auto split: option.splits)
qed

lemma islist_drop: "islist h p (xs @ ys) \<Longrightarrow> \<exists>q. islist h q ys"
  by (induction xs arbitrary: p) (auto split: option.splits)

lemma islist_suffix: "islist h p (xs @ a # ys) \<Longrightarrow> islist h (Some a) (a # ys)"
  using islist_drop[of h p xs "a # ys"] by auto

lemma islist_head_notin: 
  assumes "islist h p (a # as)" shows "a \<notin> set as"
proof
  assume "a \<in> set as"
  then obtain xs ys where as: "as = xs @ a # ys" by (auto simp: in_set_conv_decomp)
  from assms have p: "p = Some a" by simp
  from assms as have "islist h (Some a) (a # ys)"
    using islist_suffix[of h p "a # xs" a ys] by simp
  with assms p have "a # as = a # ys" using islist_fun by blast
  with as show False by simp
qed

lemma islist_distinct: "islist h p as \<Longrightarrow> distinct as"
proof (induction as arbitrary: p)
  case Nil
  then show ?case by simp
next
  case (Cons a as)
  from Cons.prems have "a \<notin> set as" by (rule islist_head_notin)
  moreover from Cons.prems obtain e where "h a = Some e" "islist h (ele_next e) as"
    by (auto split: option.splits)
  ultimately show ?case using Cons.IH by auto
qed

lemma islist_live: "islist h p as \<Longrightarrow> a \<in> set as \<Longrightarrow> h a \<noteq> None"
  by (induction as arbitrary: p) (auto split: option.splits)

lemma islist_frame: "\<forall>a \<in> set as. h' a = h a \<Longrightarrow> islist h' p as = islist h p as"
  by (induction as arbitrary: p) (auto split: option.splits)

lemma islist_upd_notin [simp]: "a \<notin> set as \<Longrightarrow> islist (h(a := x)) p as = islist h p as"
  by (rule islist_frame) simp

lemma islist_last: "islist h p as \<Longrightarrow> as \<noteq> [] \<Longrightarrow> \<exists>e. h (last as) = Some e \<and> ele_next e = None"
  by (induction as arbitrary: p) (auto split: option.splits)

lemma islist_snoc:
  assumes "islist h p as" "as \<noteq> []" "h (last as) = Some e" "a \<notin> set as"
  shows "islist (h(a \<mapsto> n\<lparr>ele_next := None\<rparr>, last as \<mapsto> e\<lparr>ele_next := Some a\<rparr>)) p (as @ [a])"
  using assms
proof (induction as arbitrary: p)
  case Nil
  then show ?case by simp
next
  case (Cons b bs)
  from Cons.prems(1) have d: "b \<notin> set bs" by (rule islist_head_notin)
  show ?case
  proof (cases "bs = []")
    case True
    with Cons.prems show ?thesis by (auto split: option.splits)
  next
    case False
    with Cons.prems d have "b \<noteq> last bs" "b \<noteq> a" by auto
    with Cons False show ?thesis by (auto split: option.splits)
  qed
qed

lemma nth_cell_islist:
  "islist h p as \<Longrightarrow> n < length as \<Longrightarrow> nth_cell h p n = Some (as ! n)"
proof (induction as arbitrary: p n)
  case Nil
  then show ?case by simp
next
  case (Cons a as)
  then show ?case by (cases n) (auto split: option.splits)
qed


subsection \<open>Copying strings\<close>

lemma snprintf_s_zero: "c_string src = Some str \<Longrightarrow> snprintf_s dst 0 src = Some dst"
  by (simp add: snprintf_s_def)

lemma snprintf_s_pos:
  "c_string src = Some str \<Longrightarrow> 0 < sz \<Longrightarrow> min (length str) (sz - 1) + 1 \<le> length dst \<Longrightarrow>
   snprintf_s dst sz src = Some (take (sz - 1) str @ NUL # drop (min (length str) (sz - 1) + 1) dst)"
  by (simp add: snprintf_s_def Let_def)

lemma snprintf_s_out_bytes:
  assumes "c_string src = Some str" "min (length str + 1) sz \<le> length dst"
  shows "snprintf_s dst sz src = Some (out_bytes str sz dst)"
proof (cases "sz = 0")
  case True
  with assms show ?thesis by (simp add: snprintf_s_zero out_bytes_def)
next
  case False
  with assms(2) have "min (length str) (sz - 1) + 1 \<le> length dst"
    by (auto simp: min_def split: if_splits)
  with assms(1) False show ?thesis by (simp add: snprintf_s_pos out_bytes_def)
qed

subsection \<open>The size passed to the copy\<close>

lemma int_of_size_t_small: "n < 2 ^ 31 \<Longrightarrow> int_of_size_t n = int n"
  by (simp add: int_of_size_t_def Let_def)

lemma size_t_of_int_nat: "size_t_of_int (int n) = n mod 2 ^ 64"
  by (simp add: size_t_of_int_def nat_mod_distrib)

lemma size_t_of_int_small: "n < 2 ^ 31 \<Longrightarrow> size_t_of_int (int n) = n"
  by (simp add: size_t_of_int_nat)

lemma real_buf_size_le: "real_buf_size bufsize n \<le> bufsize"
  by (simp add: real_buf_size_def)

lemma real_buf_size_zero: "real_buf_size 0 n = 0"
  by (simp add: real_buf_size_def)

lemma real_buf_size_small:
  assumes "n + 1 < 2 ^ 31"
  shows "real_buf_size bufsize n = min bufsize (n + 1)"
proof -
  from assms have "int_of_size_t (n + 1) = int (n + 1)" by (rule int_of_size_t_small)
  moreover from assms have "size_t_of_int (int (n + 1)) = n + 1" by (rule size_t_of_int_small)
  ultimately have "size_t_of_int (int_of_size_t (n + 1)) = n + 1" by (simp only:)
  then show ?thesis unfolding real_buf_size_def by (simp only: min_def) auto
qed

lemma out_bytes_real_small:
  assumes "length str + 1 < 2 ^ 31"
  shows "out_bytes str (real_buf_size bufsize (length str)) d = out_bytes str bufsize d"
proof (cases "bufsize \<le> length str + 1")
  case True
  with assms show ?thesis by (simp add: real_buf_size_small min_def)
next
  case False
  with assms show ?thesis by (simp add: real_buf_size_small min_def out_bytes_def)
qed

subsection \<open>Removal\<close>

lemma q_remove_head_unfold:
  "q_remove_head m (Some qa) (Some spa) bufsize = do {
     Q \<leftarrow> queues m qa;
     (case head Q of
        None \<Rightarrow> Some (False, m)
      | Some rmElem \<Rightarrow> do {
          e \<leftarrow> nodes m rmElem;
          v \<leftarrow> ele_value e;
          vb \<leftarrow> bufs m v;
          n \<leftarrow> strlen vb;
          m1 \<leftarrow> strlcpy m spa v (real_buf_size bufsize n);
          Some (True, free_ele (Some rmElem) (free_chars (ele_value e)
            (m1\<lparr>queues := (queues m1)(qa \<mapsto>
               Q\<lparr>head := ele_next e, qsize := qsize (Q\<lparr>head := ele_next e\<rparr>) - 1\<rparr>)\<rparr>)))
        })
   }"
  unfolding q_remove_head_def real_buf_size_def Let_def by simp

lemma q_remove_head_eval:
  assumes "queues m qa = Some Q" "head Q = Some a" "nodes m a = Some e" "ele_value e = Some v"
    "bufs m v = Some vb" "c_string vb = Some str" "bufs m spa = Some d"
    "min (length str + 1) (real_buf_size bufsize (length str)) \<le> length d"
  shows "\<exists>m'. q_remove_head m (Some qa) (Some spa) bufsize = Some (True, m') \<and>
          nodes m' = (nodes m)(a := None) \<and>
          bufs m' = (bufs m)(spa \<mapsto> out_bytes str (real_buf_size bufsize (length str)) d, v := None) \<and>
          queues m' = (queues m)(qa \<mapsto> Q\<lparr>head := ele_next e, qsize := qsize Q - 1\<rparr>)"
proof -
  have "snprintf_s d (real_buf_size bufsize (length str)) vb =
        Some (out_bytes str (real_buf_size bufsize (length str)) d)"
    using assms(6,8) by (rule snprintf_s_out_bytes)
  with assms(1-7) show ?thesis
    by (simp add: q_remove_head_unfold strlen_def strlcpy_def free_ele_def free_chars_def)
qed

lemma queue_okD:
  assumes "queue_ok m qa as"
  obtains Q where "queues m qa = Some Q" "islist (nodes m) (head Q) as" "qsize Q = int (length as)"
    "as \<noteq> [] \<Longrightarrow> tail Q = Some (last as)" "None \<notin> set (map (payload m) as)" "distinct (map (valptr m) as)"
  using assms by (auto simp: queue_ok_def split: option.splits)

lemma payloadD:
  assumes "payload m a = Some str"
  obtains e v vb where "nodes m a = Some e" "ele_value e = Some v" "bufs m v = Some vb" "c_string vb = Some str"
  using assms by (auto simp: payload_def valptr_def split: Option.bind_splits)

lemma q_remove_head_ok:
  assumes ok: "queue_ok m qa (a # as)" and str: "payload m a = Some str"
    and sp: "bufs m spa = Some d" "Some spa \<notin> set (map (valptr m) (a # as))"
    and cap: "min (length str + 1) (real_buf_size bufsize (length str)) \<le> length d"
  shows "\<exists>m'. q_remove_head m (Some qa) (Some spa) bufsize = Some (True, m') \<and>
          queue_ok m' qa as \<and>
          map (payload m') as = map (payload m) as \<and>
          map (valptr m') as = map (valptr m) as \<and>
          nodes m' = (nodes m)(a := None) \<and>
          (\<exists>v. valptr m a = Some v \<and>
             bufs m' = (bufs m)(spa \<mapsto> out_bytes str (real_buf_size bufsize (length str)) d, v := None)) \<and>
          bufs m' spa = Some (out_bytes str (real_buf_size bufsize (length str)) d) \<and>
          q_size m' (Some qa) = Some (int (length as)) \<and>
          map_option tail (queues m' qa) = map_option tail (queues m qa)"
proof -
  from ok obtain Q where Q: "queues m qa = Some Q" "islist (nodes m) (head Q) (a # as)"
    "qsize Q = int (length (a # as))" "as \<noteq> [] \<Longrightarrow> tail Q = Some (last as)"
    "None \<notin> set (map (payload m) (a # as))" "distinct (map (valptr m) (a # as))"
    by (auto elim!: queue_okD)
  from str obtain e v vb where e: "nodes m a = Some e" "ele_value e = Some v" "bufs m v = Some vb"
    "c_string vb = Some str" by (rule payloadD)
  from Q(2) e have hd: "head Q = Some a" and tl: "islist (nodes m) (ele_next e) as" by auto
  from Q(2) have nin: "a \<notin> set as" by (rule islist_head_notin)
  from q_remove_head_eval[OF Q(1) hd e sp(1) cap]
  obtain m' where m': "q_remove_head m (Some qa) (Some spa) bufsize = Some (True, m')"
    "nodes m' = (nodes m)(a := None)"
    "bufs m' = (bufs m)(spa \<mapsto> out_bytes str (real_buf_size bufsize (length str)) d, v := None)"
    "queues m' = (queues m)(qa \<mapsto> Q\<lparr>head := ele_next e, qsize := qsize Q - 1\<rparr>)"
    by blast
  have va: "valptr m a = Some v" using e by (simp add: valptr_def)
  have vp: "valptr m' b = valptr m b" if "b \<in> set as" for b
    using that nin m'(2) by (auto simp: valptr_def)
  have pl: "payload m' b = payload m b" if b: "b \<in> set as" for b
  proof -
    from b Q(5) obtain s where "payload m b = Some s" by force
    then obtain w where w: "valptr m b = Some w" by (auto simp: payload_def split: Option.bind_splits)
    from b Q(6) va w have "w \<noteq> v" by (auto simp: image_iff)
    moreover from b sp(2) w have "w \<noteq> spa" by (auto simp: image_iff)
    ultimately show ?thesis using vp[OF b] w m'(3) by (simp add: payload_def)
  qed
  have "queue_ok m' qa as"
    using Q m' tl nin vp pl
    by (auto simp: queue_ok_def distinct_map inj_on_def image_iff cong: map_cong)
  moreover have "spa \<noteq> v" using sp(2) va by auto
  ultimately show ?thesis using m' vp pl va Q by (auto simp: q_size_def)
qed

subsection \<open>Insertion\<close>

lemma snprintf_s_full:
  assumes "c_string src = Some str"
  shows "snprintf_s (replicate (Suc (length str)) NUL) (Suc (length str)) src = Some (str @ [NUL])"
  using snprintf_s_pos[OF assms, of "Suc (length str)" "replicate (Suc (length str)) NUL"] by simp

lemma q_insert_head_eval:
  assumes "bufs m s = Some sb" "c_string sb = Some str" "queues m qa = Some Q" "bufs m v = None"
  shows "\<exists>m'. q_insert_head (Some a) (Some v) m (Some qa) s = Some (True, m') \<and>
          nodes m' = (nodes m)(a \<mapsto> \<lparr>ele_value = Some v, ele_next = head Q\<rparr>) \<and>
          bufs m' = (bufs m)(v \<mapsto> str @ [NUL]) \<and>
          queues m' = (queues m)(qa \<mapsto> Q\<lparr>head := Some a, tail := (if qsize Q = 0 then Some a else tail Q),
                                       qsize := qsize Q + 1\<rparr>)"
proof -
  from assms have "s \<noteq> v" by auto
  with assms snprintf_s_full[OF assms(2)] show ?thesis
    by (simp add: q_insert_head_def strlen_def strlcpy_def Let_def malloc_ele_def malloc_chars_def nat_add_distrib)
qed

lemma q_insert_tail_eval_empty:
  assumes "bufs m s = Some sb" "c_string sb = Some str" "queues m qa = Some Q" "bufs m v = None"
    "qsize Q = 0"
  shows "\<exists>m'. q_insert_tail (Some a) (Some v) m (Some qa) s = Some (True, m') \<and>
          nodes m' = (nodes m)(a \<mapsto> \<lparr>ele_value = Some v, ele_next = None\<rparr>) \<and>
          bufs m' = (bufs m)(v \<mapsto> str @ [NUL]) \<and>
          queues m' = (queues m)(qa \<mapsto> Q\<lparr>head := Some a, tail := Some a, qsize := 1\<rparr>)"
proof -
  from assms have "s \<noteq> v" by auto
  with assms snprintf_s_full[OF assms(2)] show ?thesis
    by (simp add: q_insert_tail_def strlen_def strlcpy_def Let_def malloc_ele_def malloc_chars_def nat_add_distrib)
qed

lemma q_insert_tail_eval_nonempty:
  assumes "bufs m s = Some sb" "c_string sb = Some str" "queues m qa = Some Q" "bufs m v = None"
    "qsize Q \<noteq> 0" "tail Q = Some t" "nodes m t = Some te" "t \<noteq> a"
  shows "\<exists>m'. q_insert_tail (Some a) (Some v) m (Some qa) s = Some (True, m') \<and>
          nodes m' = (nodes m)(a \<mapsto> \<lparr>ele_value = Some v, ele_next = None\<rparr>, t \<mapsto> te\<lparr>ele_next := Some a\<rparr>) \<and>
          bufs m' = (bufs m)(v \<mapsto> str @ [NUL]) \<and>
          queues m' = (queues m)(qa \<mapsto> Q\<lparr>tail := Some a, qsize := qsize Q + 1\<rparr>)"
proof -
  from assms have "s \<noteq> v" by auto
  with assms snprintf_s_full[OF assms(2)] show ?thesis
    by (simp add: q_insert_tail_def strlen_def strlcpy_def Let_def malloc_ele_def malloc_chars_def nat_add_distrib)
qed

lemma payload_live: "payload m b = Some s \<Longrightarrow> \<exists>w. valptr m b = Some w \<and> bufs m w \<noteq> None"
  by (auto simp: payload_def split: Option.bind_splits)

lemma queue_ok_valptrs_live:
  assumes "None \<notin> set (map (payload m) as)" "b \<in> set as"
  shows "\<exists>w. valptr m b = Some w \<and> bufs m w \<noteq> None"
proof -
  from assms obtain s where "payload m b = Some s" by force
  then show ?thesis by (rule payload_live)
qed

lemma payload_frame:
  assumes "nodes m' b = nodes m b" "\<And>w. valptr m b = Some w \<Longrightarrow> bufs m' w = bufs m w"
  shows "payload m' b = payload m b"
proof -
  from assms(1) have v: "valptr m' b = valptr m b" by (simp add: valptr_def)
  show ?thesis
  proof (cases "valptr m b")
    case None
    with v show ?thesis by (simp add: payload_def)
  next
    case (Some w)
    with v assms(2)[OF Some] show ?thesis by (simp add: payload_def)
  qed
qed

lemma q_insert_head_ok:
  assumes ok: "queue_ok m qa as" and s: "bufs m s = Some sb" "c_string sb = Some str"
    and fresh: "nodes m a = None" "bufs m v = None"
  shows "\<exists>m'. q_insert_head (Some a) (Some v) m (Some qa) s = Some (True, m') \<and>
          queue_ok m' qa (a # as) \<and>
          payload m' a = Some str \<and>
          map (payload m') as = map (payload m) as \<and>
          map (valptr m') as = map (valptr m) as \<and>
          valptr m' a = Some v \<and>
          bufs m' = (bufs m)(v \<mapsto> str @ [NUL]) \<and>
          dom (nodes m') = insert a (dom (nodes m)) \<and>
          q_size m' (Some qa) = Some (int (length as) + 1)"
proof -
  from ok obtain Q where Q: "queues m qa = Some Q" "islist (nodes m) (head Q) as"
    "qsize Q = int (length as)" "as \<noteq> [] \<Longrightarrow> tail Q = Some (last as)"
    "None \<notin> set (map (payload m) as)" "distinct (map (valptr m) as)"
    by (auto elim!: queue_okD)
  from q_insert_head_eval[OF s Q(1) fresh(2), of a]
  obtain m' where m': "q_insert_head (Some a) (Some v) m (Some qa) s = Some (True, m')"
    "nodes m' = (nodes m)(a \<mapsto> \<lparr>ele_value = Some v, ele_next = head Q\<rparr>)"
    "bufs m' = (bufs m)(v \<mapsto> str @ [NUL])"
    "queues m' = (queues m)(qa \<mapsto> Q\<lparr>head := Some a, tail := (if qsize Q = 0 then Some a else tail Q),
                                       qsize := qsize Q + 1\<rparr>)"
    by blast
  have nin: "a \<notin> set as" using islist_live[OF Q(2), of a] fresh(1) by auto
  have nstr: "NUL \<notin> set str" using s(2) by (rule c_string_nonul)
  have vnew: "valptr m' a = Some v" using m'(2) by (simp add: valptr_def)
  have pnew: "payload m' a = Some str"
    using vnew m'(3) nstr c_string_terminated[of str "[]"] by (simp add: payload_def)
  have vp: "valptr m' b = valptr m b" if "b \<in> set as" for b
    using that nin m'(2) by (auto simp: valptr_def)
  have vne: "valptr m b \<noteq> Some v" if "b \<in> set as" for b
    using queue_ok_valptrs_live[OF Q(5) that] fresh(2) by auto
  then have vne': "\<forall>b \<in> set as. valptr m b \<noteq> Some v" by blast
  have pl: "payload m' b = payload m b" if b: "b \<in> set as" for b
  proof (rule payload_frame)
    show "nodes m' b = nodes m b" using b nin m'(2) by auto
    show "bufs m' w = bufs m w" if "valptr m b = Some w" for w
      using that vne[OF b] m'(3) by auto
  qed
  have isl: "islist (nodes m') (Some a) (a # as)"
    using Q(2) nin m'(2) by simp
  have "queue_ok m' qa (a # as)"
    using Q m' isl nin vp pl vnew pnew vne'
    by (auto simp: queue_ok_def distinct_map inj_on_def image_iff cong: map_cong)
  then show ?thesis using m' vp pl vnew pnew Q by (auto simp: q_size_def)
qed

lemma q_insert_tail_ok:
  assumes ok: "queue_ok m qa as" and s: "bufs m s = Some sb" "c_string sb = Some str"
    and fresh: "nodes m a = None" "bufs m v = None"
  shows "\<exists>m'. q_insert_tail (Some a) (Some v) m (Some qa) s = Some (True, m') \<and>
          queue_ok m' qa (as @ [a]) \<and>
          payload m' a = Some str \<and>
          map (payload m') as = map (payload m) as \<and>
          map (valptr m') as = map (valptr m) as \<and>
          valptr m' a = Some v \<and>
          bufs m' = (bufs m)(v \<mapsto> str @ [NUL]) \<and>
          dom (nodes m') = insert a (dom (nodes m)) \<and>
          q_size m' (Some qa) = Some (int (length as) + 1)"
proof -
  from ok obtain Q where Q: "queues m qa = Some Q" "islist (nodes m) (head Q) as"
    "qsize Q = int (length as)" "as \<noteq> [] \<Longrightarrow> tail Q = Some (last as)"
    "None \<notin> set (map (payload m) as)" "distinct (map (valptr m) as)"
    by (auto elim!: queue_okD)
  have nin: "a \<notin> set as" using islist_live[OF Q(2), of a] fresh(1) by auto
  have nstr: "NUL \<notin> set str" using s(2) by (rule c_string_nonul)
  have vne: "valptr m b \<noteq> Some v" if "b \<in> set as" for b
    using queue_ok_valptrs_live[OF Q(5) that] fresh(2) by auto
  then have vne': "\<forall>b \<in> set as. valptr m b \<noteq> Some v" by blast
  have "\<exists>m'. q_insert_tail (Some a) (Some v) m (Some qa) s = Some (True, m') \<and>
          bufs m' = (bufs m)(v \<mapsto> str @ [NUL]) \<and>
          islist (nodes m') (Some (hd (as @ [a]))) (as @ [a]) \<and>
          nodes m' a = Some \<lparr>ele_value = Some v, ele_next = None\<rparr> \<and>
          (\<forall>b \<in> set as. map_option ele_value (nodes m' b) = map_option ele_value (nodes m b)) \<and>
          dom (nodes m') = insert a (dom (nodes m)) \<and>
          queues m' qa = Some \<lparr>head = Some (hd (as @ [a])), tail = Some a, qsize = int (length as) + 1\<rparr>"
  proof (cases "as = []")
    case True
    with Q have "qsize Q = 0" by simp
    from q_insert_tail_eval_empty[OF s Q(1) fresh(2) this, of a] True
    show ?thesis by auto
  next
    case False
    with Q have t: "qsize Q \<noteq> 0" "tail Q = Some (last as)" by auto
    from islist_last[OF Q(2) False] obtain te where te: "nodes m (last as) = Some te" "ele_next te = None"
      by blast
    from False nin have ne: "last as \<noteq> a" using last_in_set by metis
    from Q(2) False have hd: "head Q = Some (hd as)" by (cases as) auto
    from q_insert_tail_eval_nonempty[OF s Q(1) fresh(2) t te(1) ne]
    obtain m' where m': "q_insert_tail (Some a) (Some v) m (Some qa) s = Some (True, m')"
      "nodes m' = (nodes m)(a \<mapsto> \<lparr>ele_value = Some v, ele_next = None\<rparr>, last as \<mapsto> te\<lparr>ele_next := Some a\<rparr>)"
      "bufs m' = (bufs m)(v \<mapsto> str @ [NUL])"
      "queues m' = (queues m)(qa \<mapsto> Q\<lparr>tail := Some a, qsize := qsize Q + 1\<rparr>)"
      by blast
    have "islist (nodes m') (head Q) (as @ [a])"
      using islist_snoc[OF Q(2) False te(1) nin, of "\<lparr>ele_value = Some v, ele_next = None\<rparr>"] m'(2) by simp
    moreover have "dom (nodes m') = insert a (dom (nodes m))"
      using m'(2) te(1) by auto
    ultimately show ?thesis using m' hd False ne te Q(3) nin by (auto simp: hd_append)
  qed
  then obtain m' where m': "q_insert_tail (Some a) (Some v) m (Some qa) s = Some (True, m')"
    "bufs m' = (bufs m)(v \<mapsto> str @ [NUL])"
    "islist (nodes m') (Some (hd (as @ [a]))) (as @ [a])"
    "nodes m' a = Some \<lparr>ele_value = Some v, ele_next = None\<rparr>"
    "\<forall>b \<in> set as. map_option ele_value (nodes m' b) = map_option ele_value (nodes m b)"
    "dom (nodes m') = insert a (dom (nodes m))"
    "queues m' qa = Some \<lparr>head = Some (hd (as @ [a])), tail = Some a, qsize = int (length as) + 1\<rparr>"
    by blast
  have vnew: "valptr m' a = Some v" using m'(4) by (simp add: valptr_def)
  have pnew: "payload m' a = Some str"
    using vnew m'(2) nstr c_string_terminated[of str "[]"] by (simp add: payload_def)
  have vp: "valptr m' b = valptr m b" if "b \<in> set as" for b
  proof -
    from that m'(5) have "map_option ele_value (nodes m' b) = map_option ele_value (nodes m b)" by blast
    then show ?thesis by (cases "nodes m' b"; cases "nodes m b") (auto simp: valptr_def)
  qed
  have pl: "payload m' b = payload m b" if b: "b \<in> set as" for b
  proof (cases "valptr m b")
    case None
    with vp[OF b] show ?thesis by (simp add: payload_def)
  next
    case (Some w)
    with vne[OF b] have "w \<noteq> v" by auto
    with Some vp[OF b] m'(2) show ?thesis by (simp add: payload_def)
  qed
  have "queue_ok m' qa (as @ [a])"
    using Q m' nin vp pl vnew pnew vne'
    by (auto simp: queue_ok_def distinct_map inj_on_def image_iff cong: map_cong)
  then show ?thesis using m' vp pl vnew pnew Q by (auto simp: q_size_def)
qed

subsection \<open>The copy made by a removal\<close>








subsection \<open>Results of a removal\<close>

lemma q_remove_head_absent:
  "q_remove_head m None sp bufsize = Some (False, m)"
  "q_remove_head m q None bufsize = Some (False, m)"
  by (simp_all add: q_remove_head_def split: option.splits)

lemma q_remove_head_empty:
  "queue_ok m qa [] \<Longrightarrow> q_remove_head m (Some qa) sp bufsize = Some (False, m)"
  by (auto simp: q_remove_head_def queue_ok_def split: option.splits)

lemma queue_ok_payload:
  assumes "queue_ok m qa as" "a \<in> set as"
  shows "\<exists>str. payload m a = Some str"
proof -
  from assms(1) have "None \<notin> set (map (payload m) as)" by (auto elim!: queue_okD)
  with assms(2) show ?thesis by (cases "payload m a") force+
qed

text \<open>
  Claim C6. \<^verbatim>\<open>q_remove_head\<close> returns false exactly when the queue pointer is
  \<^verbatim>\<open>NULL\<close>, the buffer pointer is \<^verbatim>\<open>NULL\<close>, or the queue holds no cell, and then the
  memory is what it was; otherwise it returns true, and the queue holds the cells after
  the first, with their strings, the first cell is no longer live and the count is one
  less.
\<close>

theorem q_remove_head_result:
  assumes "q = None \<or> q = Some qa \<and> queue_ok m qa as"
    and "sp = None \<or> sp = Some spa \<and> (\<exists>d. bufs m spa = Some d \<and> bufsize \<le> length d) \<and>
           Some spa \<notin> set (map (valptr m) as)"
  shows "\<exists>b m'. q_remove_head m q sp bufsize = Some (b, m') \<and>
           (\<not> b) = (q = None \<or> sp = None \<or> as = []) \<and>
           (\<not> b \<longrightarrow> m' = m) \<and>
           (b \<longrightarrow> queue_ok m' qa (tl as) \<and>
                 map (payload m') (tl as) = map (payload m) (tl as) \<and>
                 nodes m' = (nodes m)(hd as := None) \<and>
                 q_size m' q = Some (int (length as) - 1))"
proof (cases "q = None \<or> sp = None \<or> as = []")
  case True
  then have "q_remove_head m q sp bufsize = Some (False, m)"
    using assms(1) q_remove_head_absent q_remove_head_empty by auto
  with True show ?thesis by (intro exI[of _ False] exI[of _ m]) simp
next
  case False
  with assms obtain a bs d where *: "q = Some qa" "queue_ok m qa (a # bs)" "sp = Some spa" "as = a # bs"
    "bufs m spa = Some d" "bufsize \<le> length d" "Some spa \<notin> set (map (valptr m) (a # bs))"
    by (cases as) auto
  from queue_ok_payload[OF *(2), of a] obtain str where str: "payload m a = Some str"
    by auto
  from *(6) real_buf_size_le[of bufsize "length str"]
  have "min (length str + 1) (real_buf_size bufsize (length str)) \<le> length d" by simp
  from q_remove_head_ok[OF *(2) str *(5) *(7) this]
  obtain m' where "q_remove_head m (Some qa) (Some spa) bufsize = Some (True, m')"
    "queue_ok m' qa bs" "map (payload m') bs = map (payload m) bs" "nodes m' = (nodes m)(a := None)"
    "q_size m' (Some qa) = Some (int (length bs))"
    by blast
  with * False show ?thesis by (intro exI[of _ True] exI[of _ m']) simp
qed

theorem q_remove_head_result_witness:
  "\<exists>b m'. q_remove_head ex_one (Some 0) (Some 20) 3 = Some (b, m') \<and>
           (\<not> b) = (Some (0::nat) = None \<or> Some (20::nat) = None \<or> [1::nat] = []) \<and>
           (\<not> b \<longrightarrow> m' = ex_one) \<and>
           (b \<longrightarrow> queue_ok m' 0 (tl [1]) \<and>
                 map (payload m') (tl [1]) = map (payload ex_one) (tl [1]) \<and>
                 nodes m' = (nodes ex_one)(hd [1] := None) \<and>
                 q_size m' (Some 0) = Some (int (length [1::nat]) - 1))"
proof -
  have 1: "Some (0::nat) = None \<or> Some 0 = Some 0 \<and> queue_ok ex_one 0 [1]"
    by (simp add: queue_ok_def ex_one_def payload_def valptr_def c_string_def)
  have 2: "Some (20::nat) = None \<or> Some 20 = Some 20 \<and> (\<exists>d. bufs ex_one 20 = Some d \<and> 3 \<le> length d) \<and>
           Some 20 \<notin> set (map (valptr ex_one) [1])"
    by (simp add: ex_one_def valptr_def)
  from q_remove_head_result[OF 1 2] show ?thesis .
qed

text \<open>
  Claim C10. With capacity 0, a non-empty queue and a live buffer, \<^verbatim>\<open>q_remove_head\<close>
  removes the first cell and returns true, and the caller's buffer keeps every byte it
  had: not even a NUL byte is written.
\<close>

theorem q_remove_head_zero_capacity:
  assumes "queue_ok m qa (a # as)" "bufs m spa = Some d" "Some spa \<notin> set (map (valptr m) (a # as))"
  shows "\<exists>m'. q_remove_head m (Some qa) (Some spa) 0 = Some (True, m') \<and>
           bufs m' spa = Some d \<and>
           queue_ok m' qa as \<and>
           map (payload m') as = map (payload m) as \<and>
           nodes m' = (nodes m)(a := None)"
proof -
  from queue_ok_payload[OF assms(1), of a] obtain str where str: "payload m a = Some str"
    by auto
  have "min (length str + 1) (real_buf_size 0 (length str)) \<le> length d"
    by (simp add: real_buf_size_zero)
  from q_remove_head_ok[OF assms(1) str assms(2,3) this]
  show ?thesis by (auto simp: out_bytes_def real_buf_size_zero)
qed

theorem q_remove_head_zero_capacity_witness:
  "\<exists>m'. q_remove_head ex_one (Some 0) (Some 20) 0 = Some (True, m') \<and>
           bufs m' 20 = Some ''XXXX'' \<and>
           queue_ok m' 0 [] \<and>
           map (payload m') [] = map (payload ex_one) [] \<and>
           nodes m' = (nodes ex_one)(1 := None)"
proof -
  have "queue_ok ex_one 0 [1]" "bufs ex_one 20 = Some ''XXXX''"
    "Some 20 \<notin> set (map (valptr ex_one) [1])"
    by (simp_all add: queue_ok_def ex_one_def payload_def valptr_def c_string_def)
  from q_remove_head_zero_capacity[OF this] show ?thesis .
qed

subsection \<open>Failing insertions\<close>

lemma mem_nodes_restore: "nodes m a = None \<Longrightarrow> m\<lparr>nodes := (nodes m)(a := None)\<rparr> = m"
  by (simp add: fun_upd_idem)

lemma mem_bufs_restore: "bufs m v = None \<Longrightarrow> m\<lparr>bufs := (bufs m)(v := None)\<rparr> = m"
  by (simp add: fun_upd_idem)

lemma q_insert_null:
  "q_insert_head r1 r2 m None s = Some (False, m)"
  "q_insert_tail r1 r2 m None s = Some (False, m)"
  by (simp_all add: q_insert_head_def q_insert_tail_def)

lemma q_insert_fail:
  assumes "bufs m s = Some sb" "c_string sb = Some str"
    and "r1 = None \<or> r2 = None"
    and "\<forall>a. r1 = Some a \<longrightarrow> nodes m a = None"
    and "\<forall>v. r2 = Some v \<longrightarrow> bufs m v = None"
  shows "q_insert_head r1 r2 m (Some qa) s = Some (False, m) \<and>
         q_insert_tail r1 r2 m (Some qa) s = Some (False, m)"
proof (cases r1)
  case None
  show ?thesis
  proof (cases r2)
    case N2: None
    with None assms(1,2) show ?thesis
      by (simp add: q_insert_head_def q_insert_tail_def strlen_def malloc_ele_def
          malloc_chars_def free_ele_def free_chars_def)
  next
    case (Some v)
    with assms(5) have "bufs m v = None" by simp
    with None Some assms(1,2) show ?thesis
      by (simp add: q_insert_head_def q_insert_tail_def strlen_def malloc_ele_def
          malloc_chars_def free_ele_def free_chars_def mem_bufs_restore)
  qed
next
  case (Some a)
  with assms(3) have r2: "r2 = None" by simp
  from Some assms(4) have "nodes m a = None" by simp
  with Some r2 assms(1,2) show ?thesis
    by (simp add: q_insert_head_def q_insert_tail_def strlen_def malloc_ele_def
        malloc_chars_def free_ele_def free_chars_def mem_nodes_restore)
qed

text \<open>
  Claim C7. When the allocation of the cell or of the string copy fails, both insertions
  return false and the memory is what it was before the call: the block that was
  handed out, if any, has been released and the queue has not been touched. With a
  \<^verbatim>\<open>NULL\<close> queue pointer both return false, whatever \<^verbatim>\<open>malloc\<close> would answer.
\<close>

theorem q_insert_failure:
  assumes "bufs m s = Some sb" "c_string sb = Some str"
    and "r1 = None \<or> r2 = None"
    and "\<forall>a. r1 = Some a \<longrightarrow> nodes m a = None"
    and "\<forall>v. r2 = Some v \<longrightarrow> bufs m v = None"
  shows "q_insert_head r1 r2 m (Some qa) s = Some (False, m) \<and>
         q_insert_tail r1 r2 m (Some qa) s = Some (False, m) \<and>
         q_insert_head r1' r2' m' None s' = Some (False, m') \<and>
         q_insert_tail r1' r2' m' None s' = Some (False, m')"
  using q_insert_fail[OF assms, of qa] q_insert_null[of r1' r2' m' s'] by simp

theorem q_insert_failure_witness:
  "q_insert_head (Some 3) None ex_one (Some 0) 21 = Some (False, ex_one) \<and>
   q_insert_tail (Some 3) None ex_one (Some 0) 21 = Some (False, ex_one) \<and>
   q_insert_head (Some 3) (Some 4) ex_one None 21 = Some (False, ex_one) \<and>
   q_insert_tail (Some 3) (Some 4) ex_one None 21 = Some (False, ex_one)"
proof -
  have "bufs ex_one 21 = Some (''pear'' @ [NUL])" "c_string (''pear'' @ [NUL]) = Some ''pear''"
    "Some (3::nat) = None \<or> (None :: nat option) = None"
    "\<forall>a. Some (3::nat) = Some a \<longrightarrow> nodes ex_one a = None"
    "\<forall>v. (None :: nat option) = Some v \<longrightarrow> bufs ex_one v = None"
    by (simp_all add: ex_one_def c_string_def)
  from q_insert_failure[OF this] show ?thesis .
qed


subsection \<open>Reversal\<close>

lemma reverse_loop_correct:
  assumes "queues m qa = Some Q" "islist (nodes m) (head Q) as" "islist (nodes m) prev ps"
    "set as \<inter> set ps = {}"
  shows "\<exists>m'. reverse_loop m qa prev = Some m' \<and>
           queues m' = (queues m)(qa \<mapsto> Q\<lparr>head := None\<rparr>) \<and>
           islist (nodes m') (if as = [] then prev else Some (last as)) (rev as @ ps) \<and>
           bufs m' = bufs m \<and>
           (\<forall>b. map_option ele_value (nodes m' b) = map_option ele_value (nodes m b))"
  using assms
proof (induction as arbitrary: m Q prev ps)
  case Nil
  then have "head Q = None" by simp
  then have "Q\<lparr>head := None\<rparr> = Q" by (cases Q) simp
  with Nil \<open>head Q = None\<close> show ?case
    by (subst reverse_loop.simps) (simp add: fun_upd_idem)
next
  case (Cons a as)
  from Cons.prems(2) obtain e where e: "head Q = Some a" "nodes m a = Some e"
    "islist (nodes m) (ele_next e) as"
    by (auto split: option.splits)
  from Cons.prems(2) have nin: "a \<notin> set as" by (rule islist_head_notin)
  from Cons.prems(4) have nps: "a \<notin> set ps" by auto
  define m2 where "m2 = m\<lparr>nodes := (nodes m)(a \<mapsto> e\<lparr>ele_next := prev\<rparr>),
                          queues := (queues m)(qa \<mapsto> Q\<lparr>head := ele_next e\<rparr>)\<rparr>"
  have step: "reverse_loop m qa prev = reverse_loop m2 qa (Some a)"
    using Cons.prems(1) e by (subst reverse_loop.simps) (simp add: m2_def Let_def)
  have 1: "queues m2 qa = Some (Q\<lparr>head := ele_next e\<rparr>)" by (simp add: m2_def)
  have 2: "islist (nodes m2) (head (Q\<lparr>head := ele_next e\<rparr>)) as"
    using e(3) nin by (simp add: m2_def)
  have 3: "islist (nodes m2) (Some a) (a # ps)"
    using Cons.prems(3) nps by (simp add: m2_def)
  have 4: "set as \<inter> set (a # ps) = {}" using Cons.prems(4) nin by auto
  from Cons.IH[OF 1 2 3 4] obtain m' where m': "reverse_loop m2 qa (Some a) = Some m'"
    "queues m' = (queues m2)(qa \<mapsto> Q\<lparr>head := ele_next e, head := None\<rparr>)"
    "islist (nodes m') (if as = [] then Some a else Some (last as)) (rev as @ a # ps)"
    "bufs m' = bufs m2"
    "\<forall>b. map_option ele_value (nodes m' b) = map_option ele_value (nodes m2 b)"
    by blast
  have "\<forall>b. map_option ele_value (nodes m2 b) = map_option ele_value (nodes m b)"
    using e(2) by (simp add: m2_def)
  with m'(5) have v: "\<forall>b. map_option ele_value (nodes m' b) = map_option ele_value (nodes m b)"
    by simp
  from step m'(1) have r: "reverse_loop m qa prev = Some m'" by simp
  have q: "queues m' = (queues m)(qa \<mapsto> Q\<lparr>head := None\<rparr>)"
    using m'(2) by (simp add: m2_def)
  have i: "islist (nodes m') (if a # as = [] then prev else Some (last (a # as))) (rev (a # as) @ ps)"
    using m'(3) by (cases "as = []") simp_all
  have b: "bufs m' = bufs m" using m'(4) by (simp add: m2_def)
  from r q i b v show ?case by blast
qed

lemma valptr_eq_valueI:
  "map_option ele_value (nodes m' b) = map_option ele_value (nodes m b) \<Longrightarrow> valptr m' b = valptr m b"
  by (cases "nodes m' b"; cases "nodes m b") (auto simp: valptr_def)

lemma payload_eqI:
  "valptr m' b = valptr m b \<Longrightarrow> bufs m' = bufs m \<Longrightarrow> payload m' b = payload m b"
  by (simp add: payload_def)

lemma dom_eq_valueI:
  assumes "\<forall>b. map_option f (h' b) = map_option f (h b)"
  shows "dom h' = dom h"
proof -
  have "(h' b = None) = (h b = None)" for b
    using assms[rule_format, of b] by (cases "h' b"; cases "h b") auto
  then show ?thesis by (auto simp: dom_def)
qed

lemma q_reverse_absent: "q_reverse m None = Some m"
  by (simp add: q_reverse_def)

lemma q_reverse_empty: "queue_ok m qa [] \<Longrightarrow> q_reverse m (Some qa) = Some m"
  by (auto simp: q_reverse_def queue_ok_def split: option.splits)

lemma q_reverse_ok:
  assumes ok: "queue_ok m qa as"
  shows "\<exists>m'. q_reverse m (Some qa) = Some m' \<and>
           queue_ok m' qa (rev as) \<and>
           (\<forall>b. valptr m' b = valptr m b) \<and>
           (\<forall>b. payload m' b = payload m b) \<and>
           bufs m' = bufs m \<and>
           dom (nodes m') = dom (nodes m)"
proof (cases "as = []")
  case True
  with ok q_reverse_empty[of m qa] show ?thesis by simp
next
  case False
  from ok obtain Q where Q: "queues m qa = Some Q" "islist (nodes m) (head Q) as"
    "qsize Q = int (length as)" "as \<noteq> [] \<Longrightarrow> tail Q = Some (last as)"
    "None \<notin> set (map (payload m) as)" "distinct (map (valptr m) as)"
    by (auto elim!: queue_okD)
  from False Q(2) have hd: "head Q = Some (hd as)" by (cases as) auto
  from reverse_loop_correct[OF Q(1,2), of None "[]"] False
  obtain m1 where m1: "reverse_loop m qa None = Some m1"
    "queues m1 = (queues m)(qa \<mapsto> Q\<lparr>head := None\<rparr>)"
    "islist (nodes m1) (Some (last as)) (rev as)"
    "bufs m1 = bufs m"
    "\<forall>b. map_option ele_value (nodes m1 b) = map_option ele_value (nodes m b)"
    by auto
  define m' where "m' = m1\<lparr>queues := (queues m1)(qa \<mapsto> Q\<lparr>head := Some (last as), tail := Some (hd as)\<rparr>)\<rparr>"
  have run: "q_reverse m (Some qa) = Some m'"
    using Q(1) hd m1(1,2) Q(4)[OF False] by (simp add: q_reverse_def m'_def Let_def)
  have vp: "valptr m' b = valptr m b" for b
    using m1(5) by (intro valptr_eq_valueI) (simp add: m'_def)
  have pl: "payload m' b = payload m b" for b
    using vp m1(4) by (intro payload_eqI) (simp_all add: m'_def)
  have dm: "dom (nodes m') = dom (nodes m)"
    using dom_eq_valueI[OF m1(5)] by (simp add: m'_def)
  have "queue_ok m' qa (rev as)"
    using Q(3,5,6) m1(3) False vp pl
    by (simp add: queue_ok_def m'_def last_rev distinct_rev rev_map[symmetric] cong: map_cong)
  with run vp pl dm m1(4) show ?thesis by (simp add: m'_def)
qed

text \<open>
  Claim C9. Reversing a queue gives the queue of the same cells in reverse order, each
  with its string; reversing twice gives back the sequence of strings the queue had;
  no cell is allocated or released; on a \<^verbatim>\<open>NULL\<close> queue pointer and on an empty queue
  \<^verbatim>\<open>q_reverse\<close> leaves the memory as it is.
\<close>

theorem q_reverse_involution:
  assumes "queue_ok m qa as"
  shows "\<exists>m1 m2. q_reverse m (Some qa) = Some m1 \<and>
           queue_ok m1 qa (rev as) \<and>
           map (payload m1) (rev as) = rev (map (payload m) as) \<and>
           dom (nodes m1) = dom (nodes m) \<and>
           q_reverse m1 (Some qa) = Some m2 \<and>
           queue_ok m2 qa as \<and>
           map (payload m2) as = map (payload m) as \<and>
           (as = [] \<longrightarrow> m1 = m) \<and>
           q_reverse m0 None = Some m0"
proof -
  from q_reverse_ok[OF assms] obtain m1 where m1: "q_reverse m (Some qa) = Some m1"
    "queue_ok m1 qa (rev as)" "\<forall>b. payload m1 b = payload m b" "dom (nodes m1) = dom (nodes m)"
    by blast
  from q_reverse_ok[OF m1(2)] obtain m2 where m2: "q_reverse m1 (Some qa) = Some m2"
    "queue_ok m2 qa as" "\<forall>b. payload m2 b = payload m1 b"
    by auto
  have "as = [] \<longrightarrow> m1 = m" using q_reverse_empty[of m qa] assms m1(1) by auto
  with m1 m2 show ?thesis by (simp add: rev_map q_reverse_absent)
qed

lemma ex_three_ok: "queue_ok ex_three 0 [1, 3, 5]"
  by (simp add: queue_ok_def ex_three_def payload_def valptr_def c_string_def)

theorem q_reverse_involution_witness:
  "\<exists>m1 m2. q_reverse ex_three (Some 0) = Some m1 \<and>
           queue_ok m1 0 (rev [1, 3, 5]) \<and>
           map (payload m1) (rev [1, 3, 5]) = rev (map (payload ex_three) [1, 3, 5]) \<and>
           dom (nodes m1) = dom (nodes ex_three) \<and>
           q_reverse m1 (Some 0) = Some m2 \<and>
           queue_ok m2 0 [1, 3, 5] \<and>
           map (payload m2) [1, 3, 5] = map (payload ex_three) [1, 3, 5] \<and>
           ([1, 3, 5] = ([] :: nat list) \<longrightarrow> m1 = ex_three) \<and>
           q_reverse ex_three None = Some ex_three"
proof -
  have "queue_ok ex_three 0 [1, 3, 5]"
    by (simp add: queue_ok_def ex_three_def payload_def valptr_def c_string_def)
  from q_reverse_involution[OF this] show ?thesis .
qed


subsection \<open>Merge sort on lists\<close>

lemma msort_abs_short: "length xs \<le> 1 \<Longrightarrow> msort_abs lt xs = xs"
  by (subst msort_abs.simps) simp

lemma msort_abs_long:
  "\<not> length xs \<le> 1 \<Longrightarrow>
   msort_abs lt xs = merge_abs lt (msort_abs lt (take ((length xs + 1) div 2) xs))
                                 (msort_abs lt (drop ((length xs + 1) div 2) xs))"
  by (subst msort_abs.simps) simp

lemma mset_merge_abs: "mset (merge_abs lt xs ys) = mset xs + mset ys"
  by (induction lt xs ys rule: merge_abs.induct) auto

lemma set_merge_abs: "set (merge_abs lt xs ys) = set xs \<union> set ys"
  using mset_merge_abs[of lt xs ys] by (metis set_mset_mset set_mset_union)

lemma mset_msort_abs: "mset (msort_abs lt xs) = mset xs"
proof (induction lt xs rule: msort_abs.induct)
  case (1 lt xs)
  show ?case
  proof (cases "length xs \<le> 1")
    case True
    then show ?thesis by (simp add: msort_abs_short)
  next
    case False
    with 1 have "mset (msort_abs lt xs) =
        mset (take ((length xs + 1) div 2) xs) + mset (drop ((length xs + 1) div 2) xs)"
      by (simp add: msort_abs_long mset_merge_abs)
    also have "\<dots> = mset (take ((length xs + 1) div 2) xs @ drop ((length xs + 1) div 2) xs)"
      by (simp only: mset_append)
    finally show ?thesis by (simp only: append_take_drop_id)
  qed
qed

lemma set_msort_abs: "set (msort_abs lt xs) = set xs"
  using mset_msort_abs[of lt xs] by (metis set_mset_mset)

lemma length_msort_abs: "length (msort_abs lt xs) = length xs"
  using mset_msort_abs[of lt xs] by (metis size_mset)

lemma sorted_merge_abs:
  fixes key :: "'a \<Rightarrow> 'k::linorder"
  assumes "sorted (map key xs)" "sorted (map key ys)"
  shows "sorted (map key (merge_abs (\<lambda>a b. key a < key b) xs ys))"
  using assms
proof (induction "\<lambda>a b. key a < key b" xs ys rule: merge_abs.induct)
  case (3 x xs y ys)
  then show ?case by (auto simp: set_merge_abs)
qed simp_all

lemma sorted_msort_abs:
  fixes key :: "'a \<Rightarrow> 'k::linorder"
  shows "sorted (map key (msort_abs (\<lambda>a b. key a < key b) xs))"
proof (induction "\<lambda>a b. key a < key b" xs rule: msort_abs.induct)
  case (1 xs)
  show ?case
  proof (cases "length xs \<le> 1")
    case True
    then have "xs = [] \<or> (\<exists>x. xs = [x])" by (cases xs) auto
    with True show ?thesis by (auto simp: msort_abs_short)
  next
    case False
    with 1 show ?thesis by (simp add: msort_abs_long sorted_merge_abs)
  qed
qed

text \<open>On equal keys the merge puts the cells of its second argument first.\<close>

lemma filter_merge_abs:
  fixes key :: "'a \<Rightarrow> 'k::linorder"
  assumes "sorted (map key ys)"
  shows "filter (\<lambda>a. key a = k) (merge_abs (\<lambda>a b. key a < key b) xs ys) =
         filter (\<lambda>a. key a = k) ys @ filter (\<lambda>a. key a = k) xs"
  using assms
proof (induction "\<lambda>a b. key a < key b" xs ys rule: merge_abs.induct)
  case (3 x xs y ys)
  show ?case
  proof (cases "key x < key y")
    case True
    with 3 have IH: "filter (\<lambda>a. key a = k) (merge_abs (\<lambda>a b. key a < key b) xs (y # ys)) =
         filter (\<lambda>a. key a = k) (y # ys) @ filter (\<lambda>a. key a = k) xs" by simp
    show ?thesis
    proof (cases "key x = k")
      case kx: True
      with True "3.prems" have "\<forall>b \<in> set (y # ys). key b \<noteq> k" by auto
      then have "filter (\<lambda>a. key a = k) (y # ys) = []" by (simp only: filter_empty_conv)
      with True IH show ?thesis by simp
    next
      case False
      with True IH show ?thesis by simp
    qed
  next
    case False
    with 3 have "filter (\<lambda>a. key a = k) (merge_abs (\<lambda>a b. key a < key b) (x # xs) ys) =
         filter (\<lambda>a. key a = k) ys @ filter (\<lambda>a. key a = k) (x # xs)" by simp
    with False show ?thesis by simp
  qed
qed simp_all

lemma filter_msort_abs:
  fixes key :: "'a \<Rightarrow> 'k::linorder"
  shows "filter (\<lambda>a. key a = k) (msort_abs (\<lambda>a b. key a < key b) xs) =
         rev (filter (\<lambda>a. key a = k) xs)"
proof (induction "\<lambda>a b. key a < key b" xs rule: msort_abs.induct)
  case (1 xs)
  show ?case
  proof (cases "length xs \<le> 1")
    case True
    then have "xs = [] \<or> (\<exists>x. xs = [x])" by (cases xs) auto
    with True show ?thesis by (auto simp: msort_abs_short)
  next
    case False
    define n where "n = (length xs + 1) div 2"
    from False 1 have
      l: "filter (\<lambda>a. key a = k) (msort_abs (\<lambda>a b. key a < key b) (take n xs)) =
          rev (filter (\<lambda>a. key a = k) (take n xs))" and
      r: "filter (\<lambda>a. key a = k) (msort_abs (\<lambda>a b. key a < key b) (drop n xs)) =
          rev (filter (\<lambda>a. key a = k) (drop n xs))"
      by (simp_all add: n_def)
    from False have "filter (\<lambda>a. key a = k) (msort_abs (\<lambda>a b. key a < key b) xs) =
        filter (\<lambda>a. key a = k) (merge_abs (\<lambda>a b. key a < key b)
          (msort_abs (\<lambda>a b. key a < key b) (take n xs)) (msort_abs (\<lambda>a b. key a < key b) (drop n xs)))"
      by (simp add: msort_abs_long n_def)
    also have "\<dots> = rev (filter (\<lambda>a. key a = k) (drop n xs)) @ rev (filter (\<lambda>a. key a = k) (take n xs))"
      by (simp add: filter_merge_abs sorted_msort_abs l r)
    also have "\<dots> = rev (filter (\<lambda>a. key a = k) (take n xs @ drop n xs))"
      by (simp only: filter_append rev_append)
    finally show ?thesis by simp
  qed
qed

subsection \<open>Memories that differ in links only\<close>


lemma relinked_refl: "relinked m m S"
  by (simp add: relinked_def)

lemma relinked_trans:
  assumes "relinked m m1 S" "relinked m1 m2 T"
  shows "relinked m m2 (S \<union> T)"
  unfolding relinked_def
proof (intro conjI allI impI)
  show "queues m2 = queues m" using assms by (simp only: relinked_def)
  show "bufs m2 = bufs m" using assms by (simp only: relinked_def)
  show "map_option ele_value (nodes m2 b) = map_option ele_value (nodes m b)" for b
    using assms unfolding relinked_def by metis
  show "nodes m2 b = nodes m b" if "b \<notin> S \<union> T" for b
  proof -
    from that have "b \<notin> S" "b \<notin> T" by auto
    with assms show ?thesis unfolding relinked_def by metis
  qed
qed

lemma relinked_mono: "relinked m m' S \<Longrightarrow> S \<subseteq> T \<Longrightarrow> relinked m m' T"
  unfolding relinked_def by blast


lemma relinked_valptr: "relinked m m' S \<Longrightarrow> valptr m' b = valptr m b"
  unfolding relinked_def by (intro valptr_eq_valueI) blast

lemma relinked_bufs: "relinked m m' S \<Longrightarrow> bufs m' = bufs m"
  unfolding relinked_def by blast

lemma relinked_queues: "relinked m m' S \<Longrightarrow> queues m' = queues m"
  unfolding relinked_def by blast

lemma relinked_outside: "relinked m m' S \<Longrightarrow> b \<notin> S \<Longrightarrow> nodes m' b = nodes m b"
  unfolding relinked_def by blast

lemma relinked_payload:
  assumes "relinked m m' S"
  shows "payload m' b = payload m b"
  by (simp only: payload_def relinked_valptr[OF assms] relinked_bufs[OF assms])

lemma relinked_islist:
  assumes "relinked m m' S" "set as \<inter> S = {}"
  shows "islist (nodes m') p as = islist (nodes m) p as"
proof (rule islist_frame, rule ballI)
  fix a assume "a \<in> set as"
  with assms(2) have "a \<notin> S" by auto
  with assms(1) show "nodes m' a = nodes m a" by (rule relinked_outside)
qed

lemma relinked_dom:
  assumes "relinked m m' S"
  shows "dom (nodes m') = dom (nodes m)"
proof (rule dom_eq_valueI[of ele_value])
  show "\<forall>b. map_option ele_value (nodes m' b) = map_option ele_value (nodes m b)"
    using assms unfolding relinked_def by blast
qed

lemma relinked_upd_next:
  assumes "nodes m a = Some e"
  shows "relinked m (m\<lparr>nodes := (nodes m)(a \<mapsto> e\<lparr>ele_next := p\<rparr>)\<rparr>) {a}"
  unfolding relinked_def using assms by simp


subsection \<open>Merging in the heap\<close>

lemma list_cmp_payload:
  assumes "payload m a = Some s1" "payload m b = Some s2"
  shows "list_cmp m a b = Some (s1 < s2)"
proof -
  from assms(1) obtain e1 v1 b1 where 1: "nodes m a = Some e1" "ele_value e1 = Some v1"
    "bufs m v1 = Some b1" "c_string b1 = Some s1" by (rule payloadD)
  from assms(2) obtain e2 v2 b2 where 2: "nodes m b = Some e2" "ele_value e2 = Some v2"
    "bufs m v2 = Some b2" "c_string b2 = Some s2" by (rule payloadD)
  have n: "NUL \<notin> set s1" "NUL \<notin> set s2" using 1(4) 2(4) by (auto dest: c_string_nonul)
  have "(\<not> 0 \<le> strcmp_s s1 s2) = (s1 < s2)"
    using strcmp_s_less[OF n] by (simp add: not_le)
  with 1 2 show ?thesis by (auto simp: list_cmp_def strcmp_def)
qed

lemma merge_correct:
  assumes "islist (nodes m) l1 as" "islist (nodes m) l2 bs" "set as \<inter> set bs = {}"
    "\<forall>a \<in> set as \<union> set bs. payload m a = Some (key a)"
  shows "\<exists>r m'. merge m l1 l2 = Some (r, m') \<and>
           islist (nodes m') r (merge_abs (\<lambda>a b. key a < key b) as bs) \<and>
           relinked m m' (set as \<union> set bs)"
  using assms
proof (induction "\<lambda>a b. key a < key b" as bs arbitrary: l1 l2 rule: merge_abs.induct)
  case (1 xs)
  then have "merge m l1 l2 = Some (l1, m)" by (subst merge.simps) simp
  with 1 show ?case by (simp add: relinked_refl)
next
  case (2 v va)
  then have "merge m l1 l2 = Some (l2, m)" by (subst merge.simps) simp
  with 2 show ?case by (simp add: relinked_refl)
next
  case (3 x xs y ys)
  from "3.prems"(1) obtain e1 where x: "l1 = Some x" "nodes m x = Some e1"
    "islist (nodes m) (ele_next e1) xs" by (auto split: option.splits)
  from "3.prems"(2) obtain e2 where y: "l2 = Some y" "nodes m y = Some e2"
    "islist (nodes m) (ele_next e2) ys" by (auto split: option.splits)
  from "3.prems"(1) have xn: "x \<notin> set xs" by (rule islist_head_notin)
  from "3.prems"(2) have yn: "y \<notin> set ys" by (rule islist_head_notin)
  from "3.prems"(3) have xy: "x \<notin> set (y # ys)" "y \<notin> set (x # xs)" by auto
  from "3.prems"(4) have cmp: "list_cmp m x y = Some (key x < key y)"
    by (intro list_cmp_payload) auto
  show ?case
  proof (cases "key x < key y")
    case True
    have d: "set xs \<inter> set (y # ys) = {}" using "3.prems"(3) by auto
    have k: "\<forall>a\<in>set xs \<union> set (y # ys). payload m a = Some (key a)" using "3.prems"(4) by auto
    from "3.hyps"(1)[OF True x(3) "3.prems"(2) d k]
    obtain r m' where r: "merge m (ele_next e1) l2 = Some (r, m')"
      "islist (nodes m') r (merge_abs (\<lambda>a b. key a < key b) xs (y # ys))"
      "relinked m m' (set xs \<union> set (y # ys))" by blast
    have "x \<notin> set xs \<union> set (y # ys)" using xn xy by simp
    with r(3) have "nodes m' x = nodes m x" by (rule relinked_outside)
    with x(2) have e1': "nodes m' x = Some e1" by simp
    define m'' where "m'' = m'\<lparr>nodes := (nodes m')(x \<mapsto> e1\<lparr>ele_next := r\<rparr>)\<rparr>"
    have run: "merge m l1 l2 = Some (l1, m'')"
      using x y cmp True r(1) e1' by (subst merge.simps) (simp add: m''_def)
    have "x \<notin> set (merge_abs (\<lambda>a b. key a < key b) xs (y # ys))"
      using xn xy by (simp add: set_merge_abs)
    with r(2) have il: "islist (nodes m'') l1 (x # merge_abs (\<lambda>a b. key a < key b) xs (y # ys))"
      using x(1) by (simp add: m''_def)
    have "relinked m' m'' {x}" unfolding m''_def using e1' by (rule relinked_upd_next)
    with r(3) have "relinked m m'' ((set xs \<union> set (y # ys)) \<union> {x})" by (rule relinked_trans)
    then have rl: "relinked m m'' (set (x # xs) \<union> set (y # ys))" by (rule relinked_mono) auto
    from run il rl True show ?thesis by simp
  next
    case False
    have d: "set (x # xs) \<inter> set ys = {}" using "3.prems"(3) by auto
    have k: "\<forall>a\<in>set (x # xs) \<union> set ys. payload m a = Some (key a)" using "3.prems"(4) by auto
    from "3.hyps"(2)[OF False "3.prems"(1) y(3) d k]
    obtain r m' where r: "merge m l1 (ele_next e2) = Some (r, m')"
      "islist (nodes m') r (merge_abs (\<lambda>a b. key a < key b) (x # xs) ys)"
      "relinked m m' (set (x # xs) \<union> set ys)" by blast
    have "y \<notin> set (x # xs) \<union> set ys" using yn xy by simp
    with r(3) have "nodes m' y = nodes m y" by (rule relinked_outside)
    with y(2) have e2': "nodes m' y = Some e2" by simp
    define m'' where "m'' = m'\<lparr>nodes := (nodes m')(y \<mapsto> e2\<lparr>ele_next := r\<rparr>)\<rparr>"
    have run: "merge m l1 l2 = Some (l2, m'')"
      using x y cmp False r(1) e2' by (subst merge.simps) (simp add: m''_def)
    have "y \<notin> set (merge_abs (\<lambda>a b. key a < key b) (x # xs) ys)"
      using yn xy by (simp add: set_merge_abs)
    with r(2) have il: "islist (nodes m'') l2 (y # merge_abs (\<lambda>a b. key a < key b) (x # xs) ys)"
      using y(1) by (simp add: m''_def)
    have "relinked m' m'' {y}" unfolding m''_def using e2' by (rule relinked_upd_next)
    with r(3) have "relinked m m'' ((set (x # xs) \<union> set ys) \<union> {y})" by (rule relinked_trans)
    then have rl: "relinked m m'' (set (x # xs) \<union> set (y # ys))" by (rule relinked_mono) auto
    from run il rl False show ?thesis by simp
  qed
qed


subsection \<open>Splitting a list in the heap\<close>

lemma islist_nth_next:
  "islist h p as \<Longrightarrow> i < length as \<Longrightarrow>
   \<exists>e. h (as ! i) = Some e \<and> ele_next e = (if Suc i < length as then Some (as ! Suc i) else None)"
proof (induction as arbitrary: p i)
  case Nil
  then show ?case by simp
next
  case (Cons a as)
  from Cons.prems(1) obtain e where e: "p = Some a" "h a = Some e" "islist h (ele_next e) as"
    by (auto split: option.splits)
  show ?case
  proof (cases i)
    case 0
    with e show ?thesis by (cases as) (auto split: option.splits)
  next
    case (Suc j)
    with Cons.prems(2) have "j < length as" by simp
    from Cons.IH[OF e(3) this] Suc show ?thesis by auto
  qed
qed

lemma split_loop_correct:
  assumes "islist (nodes m) p as" "as \<noteq> []" "i \<le> (length as - 1) div 2"
  shows "split_loop m (if 2 * i + 1 < length as then Some (as ! (2 * i + 1)) else None) (as ! i) =
         Some (as ! ((length as - 1) div 2))"
  using assms(3)
proof (induction "(length as - 1) div 2 - i" arbitrary: i)
  case 0
  then have i: "i = (length as - 1) div 2" by simp
  show ?case
  proof (cases "2 * i + 1 < length as")
    case False
    with i show ?thesis by (subst split_loop.simps) simp
  next
    case True
    with i have "\<not> Suc (2 * i + 1) < length as" by presburger
    with islist_nth_next[OF assms(1) True] obtain fe where "nodes m (as ! (2 * i + 1)) = Some fe"
      "ele_next fe = None" by auto
    with True i show ?thesis by (subst split_loop.simps) simp
  qed
next
  case (Suc k)
  then have lt: "i < (length as - 1) div 2" by simp
  then have f: "2 * i + 1 < length as" "Suc (2 * i + 1) < length as" "i < length as" "Suc i < length as"
    by presburger+
  from islist_nth_next[OF assms(1) f(1)] f(2) obtain fe where fe: "nodes m (as ! (2 * i + 1)) = Some fe"
    "ele_next fe = Some (as ! Suc (2 * i + 1))" by auto
  from islist_nth_next[OF assms(1) f(3)] f(4) obtain se where se: "nodes m (as ! i) = Some se"
    "ele_next se = Some (as ! Suc i)" by auto
  from islist_nth_next[OF assms(1) f(2)] obtain fne where fne: "nodes m (as ! Suc (2 * i + 1)) = Some fne"
    "ele_next fne = (if Suc (Suc (2 * i + 1)) < length as then Some (as ! Suc (Suc (2 * i + 1))) else None)"
    by auto
  have step: "split_loop m (if 2 * i + 1 < length as then Some (as ! (2 * i + 1)) else None) (as ! i) =
      split_loop m (if 2 * Suc i + 1 < length as then Some (as ! (2 * Suc i + 1)) else None) (as ! Suc i)"
    using f fe se fne by (subst split_loop.simps) simp
  from Suc(2) lt have "k = (length as - 1) div 2 - Suc i" by simp
  moreover from lt have "Suc i \<le> (length as - 1) div 2" by simp
  ultimately have "split_loop m (if 2 * Suc i + 1 < length as then Some (as ! (2 * Suc i + 1)) else None) (as ! Suc i)
      = Some (as ! ((length as - 1) div 2))" by (rule Suc(1))
  with step show ?case by simp
qed

lemma islist_split:
  assumes "islist h p (xs @ ys)" "xs \<noteq> []"
  shows "\<exists>e. h (last xs) = Some e \<and>
           islist (h(last xs \<mapsto> e\<lparr>ele_next := None\<rparr>)) p xs \<and>
           islist (h(last xs \<mapsto> e\<lparr>ele_next := None\<rparr>)) (ele_next e) ys"
  using assms
proof (induction xs arbitrary: p)
  case Nil
  then show ?case by simp
next
  case (Cons x xs)
  from Cons.prems(1) obtain ex where ex: "p = Some x" "h x = Some ex" "islist h (ele_next ex) (xs @ ys)"
    by (auto split: option.splits)
  from Cons.prems(1) have xn: "x \<notin> set (xs @ ys)" using islist_head_notin[of h p x "xs @ ys"] by simp
  show ?case
  proof (cases "xs = []")
    case True
    from xn True have "x \<notin> set ys" by simp
    then have "islist (h(x \<mapsto> ex\<lparr>ele_next := None\<rparr>)) (ele_next ex) ys = islist h (ele_next ex) ys"
      by (rule islist_upd_notin)
    with ex(3) True have 1: "islist (h(x \<mapsto> ex\<lparr>ele_next := None\<rparr>)) (ele_next ex) ys" by simp
    have 2: "islist (h(x \<mapsto> ex\<lparr>ele_next := None\<rparr>)) p (x # xs)" using ex(1) True by simp
    have l: "last (x # xs) = x" using True by simp
    show ?thesis unfolding l using ex(2) 1 2 by blast
  next
    case False
    from Cons.IH[OF ex(3) False] obtain e where e: "h (last xs) = Some e"
      "islist (h(last xs \<mapsto> e\<lparr>ele_next := None\<rparr>)) (ele_next ex) xs"
      "islist (h(last xs \<mapsto> e\<lparr>ele_next := None\<rparr>)) (ele_next e) ys" by blast
    from False xn have ne: "x \<noteq> last xs" using last_in_set[of xs] by auto
    have l: "last (x # xs) = last xs" using False by simp
    have 3: "islist (h(last xs \<mapsto> e\<lparr>ele_next := None\<rparr>)) p (x # xs)"
      using ex(1,2) e(2) ne by simp
    show ?thesis unfolding l using e(1) 3 e(3) by blast
  qed
qed

lemma last_loop_correct:
  "islist (nodes m) (Some a) (a # as) \<Longrightarrow> last_loop m a = Some (last (a # as))"
proof (induction as arbitrary: a)
  case Nil
  then show ?case by (subst last_loop.simps) (auto split: option.splits)
next
  case (Cons b bs)
  from Cons.prems obtain e where e: "nodes m a = Some e" "ele_next e = Some b"
    "islist (nodes m) (Some b) (b # bs)" by (auto split: option.splits)
  from Cons.IH[OF e(3)] e(1,2) show ?case by (subst last_loop.simps) simp
qed


subsection \<open>Sorting in the heap\<close>

lemma merge_sort_short:
  assumes "islist (nodes m) p as" "length as \<le> 1"
  shows "merge_sort m p = Some (p, m)"
proof (cases as)
  case Nil
  with assms show ?thesis by (subst merge_sort.simps) simp
next
  case (Cons a bs)
  with assms have "bs = []" by simp
  with Cons assms(1) obtain e where "p = Some a" "nodes m a = Some e" "ele_next e = None"
    by (auto split: option.splits)
  then show ?thesis by (subst merge_sort.simps) simp
qed

lemma merge_sort_correct:
  assumes "islist (nodes m) p as" "\<forall>a \<in> set as. payload m a = Some (key a)"
  shows "\<exists>r m'. merge_sort m p = Some (r, m') \<and>
           islist (nodes m') r (msort_abs (\<lambda>a b. key a < key b) as) \<and>
           relinked m m' (set as)"
  using assms
proof (induction "\<lambda>a b. key a < key b" as arbitrary: m p rule: msort_abs.induct)
  case (1 as)
  let ?lt = "\<lambda>a b. key a < key b"
  show ?case
  proof (cases "length as \<le> 1")
    case True
    from "1.prems"(1) True have "merge_sort m p = Some (p, m)" by (rule merge_sort_short)
    with True "1.prems"(1) show ?thesis by (simp add: msort_abs_short relinked_refl)
  next
    case False
    define k where "k = (length as - 1) div 2"
    define xs where "xs = take (Suc k) as"
    define ys where "ys = drop (Suc k) as"
    from False have n: "2 \<le> length as" by simp
    have sk: "Suc k = (length as + 1) div 2" using n unfolding k_def by presburger
    have kl: "k < length as" using n unfolding k_def by presburger
    have as: "as = xs @ ys" by (simp add: xs_def ys_def)
    have xne: "xs \<noteq> []" using n by (auto simp: xs_def)
    have lx: "last xs = as ! k" using kl by (simp add: xs_def take_Suc_conv_app_nth)
    have sets: "set as = set xs \<union> set ys" by (subst as) simp
    from "1.prems"(1) have "distinct as" by (rule islist_distinct)
    then have disj: "set xs \<inter> set ys = {}" by (subst (asm) as) simp
    from n obtain h h2 rest where hh: "as = h # h2 # rest"
      by (cases as; cases "tl as") auto
    with "1.prems"(1) obtain he where he: "p = Some h" "nodes m h = Some he" "ele_next he = Some h2"
      by (auto split: option.splits)
    have ane: "as \<noteq> []" using hh by simp
    from split_loop_correct[OF "1.prems"(1) ane, of 0] n hh
    have sl: "split_loop m (Some h2) h = Some (as ! k)" by (simp add: k_def)
    from "1.prems"(1) have "islist (nodes m) p (xs @ ys)" by (simp only: as[symmetric])
    from islist_split[OF this xne] obtain e where e: "nodes m (as ! k) = Some e"
      "islist ((nodes m)(as ! k \<mapsto> e\<lparr>ele_next := None\<rparr>)) p xs"
      "islist ((nodes m)(as ! k \<mapsto> e\<lparr>ele_next := None\<rparr>)) (ele_next e) ys"
      unfolding lx by blast
    let ?m1 = "m\<lparr>nodes := (nodes m)(as ! k \<mapsto> e\<lparr>ele_next := None\<rparr>)\<rparr>"
    have r1: "relinked m ?m1 {as ! k}" using e(1) by (rule relinked_upd_next)
    have kin: "{as ! k} \<subseteq> set as" using kl by simp
    have i1: "islist (nodes ?m1) p (take ((length as + 1) div 2) as)"
      using e(2) by (simp add: xs_def sk)
    have k1: "\<forall>a\<in>set (take ((length as + 1) div 2) as). payload ?m1 a = Some (key a)"
      using "1.prems"(2) relinked_payload[OF r1] by (auto dest: in_set_takeD)
    from "1.hyps"(1)[OF False i1 k1] obtain l1 m2 where l1: "merge_sort ?m1 p = Some (l1, m2)"
      "islist (nodes m2) l1 (msort_abs ?lt xs)" "relinked ?m1 m2 (set xs)"
      unfolding xs_def sk by blast
    have "islist (nodes m2) (ele_next e) ys = islist (nodes ?m1) (ele_next e) ys"
      using l1(3) disj by (intro relinked_islist) auto
    with e(3) have i2: "islist (nodes m2) (ele_next e) (drop ((length as + 1) div 2) as)"
      by (simp add: ys_def sk)
    have k2: "\<forall>a\<in>set (drop ((length as + 1) div 2) as). payload m2 a = Some (key a)"
      using "1.prems"(2) relinked_payload[OF r1] relinked_payload[OF l1(3)] by (auto dest: in_set_dropD)
    from "1.hyps"(2)[OF False i2 k2] obtain l2 m3 where l2: "merge_sort m2 (ele_next e) = Some (l2, m3)"
      "islist (nodes m3) l2 (msort_abs ?lt ys)" "relinked m2 m3 (set ys)"
      unfolding ys_def sk by blast
    have "islist (nodes m3) l1 (msort_abs ?lt xs) = islist (nodes m2) l1 (msort_abs ?lt xs)"
      using l2(3) disj by (intro relinked_islist) (auto simp: set_msort_abs)
    with l1(2) have i3: "islist (nodes m3) l1 (msort_abs ?lt xs)" by simp
    have d3: "set (msort_abs ?lt xs) \<inter> set (msort_abs ?lt ys) = {}"
      using disj by (simp add: set_msort_abs)
    have k3: "\<forall>a\<in>set (msort_abs ?lt xs) \<union> set (msort_abs ?lt ys). payload m3 a = Some (key a)"
      using "1.prems"(2) relinked_payload[OF r1] relinked_payload[OF l1(3)] relinked_payload[OF l2(3)] sets
      by (auto simp: set_msort_abs)
    from merge_correct[OF i3 l2(2) d3 k3] obtain r m' where r: "merge m3 l1 l2 = Some (r, m')"
      "islist (nodes m') r (merge_abs ?lt (msort_abs ?lt xs) (msort_abs ?lt ys))"
      "relinked m3 m' (set (msort_abs ?lt xs) \<union> set (msort_abs ?lt ys))" by blast
    have run: "merge_sort m p = Some (r, m')"
      using he sl e(1) l1(1) l2(1) r(1) by (subst merge_sort.simps) (simp add: Let_def)
    have res: "msort_abs ?lt as = merge_abs ?lt (msort_abs ?lt xs) (msort_abs ?lt ys)"
      using False by (simp add: msort_abs_long xs_def ys_def sk)
    have "relinked m m2 ({as ! k} \<union> set xs)" using r1 l1(3) by (rule relinked_trans)
    then have "relinked m m3 ({as ! k} \<union> set xs \<union> set ys)" using l2(3) by (rule relinked_trans)
    then have "relinked m m' ({as ! k} \<union> set xs \<union> set ys \<union> (set (msort_abs ?lt xs) \<union> set (msort_abs ?lt ys)))"
      using r(3) by (rule relinked_trans)
    moreover have "{as ! k} \<union> set xs \<union> set ys \<union> (set (msort_abs ?lt xs) \<union> set (msort_abs ?lt ys)) \<subseteq> set as"
      using kin sets by (auto simp: set_msort_abs)
    ultimately have rl: "relinked m m' (set as)" by (rule relinked_mono)
    from run r(2) rl res show ?thesis by simp
  qed
qed


lemma q_sort_absent: "q_sort m None = Some m"
  by (simp add: q_sort_def)

lemma q_sort_short:
  assumes "queue_ok m qa as" "length as \<le> 1"
  shows "q_sort m (Some qa) = Some m"
proof -
  from assms(1) obtain Q where Q: "queues m qa = Some Q" "islist (nodes m) (head Q) as"
    by (auto elim!: queue_okD)
  show ?thesis
  proof (cases as)
    case Nil
    with Q show ?thesis by (simp add: q_sort_def)
  next
    case (Cons a bs)
    with assms(2) have "bs = []" by simp
    with Cons Q(2) obtain e where "head Q = Some a" "nodes m a = Some e" "ele_next e = None"
      by (auto split: option.splits)
    with Q(1) show ?thesis by (simp add: q_sort_def)
  qed
qed

lemma q_sort_ok:
  assumes ok: "queue_ok m qa as" and keys: "\<forall>a \<in> set as. payload m a = Some (key a)"
  shows "\<exists>m'. q_sort m (Some qa) = Some m' \<and>
           queue_ok m' qa (msort_abs (\<lambda>a b. key a < key b) as) \<and>
           (\<forall>b. payload m' b = payload m b) \<and>
           (\<forall>b. valptr m' b = valptr m b) \<and>
           bufs m' = bufs m \<and>
           dom (nodes m') = dom (nodes m)"
proof (cases "length as \<le> 1")
  case True
  with ok q_sort_short[OF ok True] show ?thesis by (simp add: msort_abs_short)
next
  case False
  let ?lt = "\<lambda>a b. key a < key b"
  let ?ss = "msort_abs ?lt as"
  from ok obtain Q where Q: "queues m qa = Some Q" "islist (nodes m) (head Q) as"
    "qsize Q = int (length as)" "as \<noteq> [] \<Longrightarrow> tail Q = Some (last as)"
    "None \<notin> set (map (payload m) as)" "distinct (map (valptr m) as)"
    by (auto elim!: queue_okD)
  from False obtain h h2 rest where hh: "as = h # h2 # rest"
    by (cases as; cases "tl as") auto
  with Q(2) obtain he where he: "head Q = Some h" "nodes m h = Some he" "ele_next he = Some h2"
    by (auto split: option.splits)
  from merge_sort_correct[OF Q(2) keys] obtain r m1 where m1: "merge_sort m (head Q) = Some (r, m1)"
    "islist (nodes m1) r ?ss" "relinked m m1 (set as)" by blast
  have len: "length ?ss = length as" by (rule length_msort_abs)
  with hh obtain t ts where ts: "?ss = t # ts" by (cases ?ss) auto
  with m1(2) have rt: "r = Some t" by simp
  have q1: "queues m1 = queues m" using m1(3) by (rule relinked_queues)
  let ?m2 = "m1\<lparr>queues := (queues m1)(qa \<mapsto> Q\<lparr>head := r\<rparr>)\<rparr>"
  have "islist (nodes ?m2) (Some t) (t # ts)" using m1(2) rt ts by simp
  then have ll: "last_loop ?m2 t = Some (last (t # ts))" by (rule last_loop_correct)
  define m' where "m' = m1\<lparr>queues := (queues m1)(qa \<mapsto> Q\<lparr>head := r, tail := Some (last ?ss)\<rparr>)\<rparr>"
  have run: "q_sort m (Some qa) = Some m'"
    using Q(1) he m1(1) q1 rt ll ts by (simp add: q_sort_def m'_def Let_def)
  have vp: "valptr m' b = valptr m b" for b
    using relinked_valptr[OF m1(3), of b] by (simp add: valptr_def m'_def)
  have bf: "bufs m' = bufs m" using relinked_bufs[OF m1(3)] by (simp add: m'_def)
  have pl: "payload m' b = payload m b" for b
    using vp[of b] bf by (simp add: payload_def)
  have dm: "dom (nodes m') = dom (nodes m)" using relinked_dom[OF m1(3)] by (simp add: m'_def)
  have dist: "distinct ?ss" using m1(2) by (rule islist_distinct)
  from Q(6) have inj: "inj_on (valptr m) (set as)" by (simp add: distinct_map)
  have dv: "distinct (map (valptr m') ?ss)"
    using dist inj vp by (simp add: distinct_map set_msort_abs inj_on_def)
  have np: "None \<notin> set (map (payload m') ?ss)"
    using Q(5) pl by (simp add: set_msort_abs image_iff)
  have "queue_ok m' qa ?ss"
    using m1(2) Q(3) len dv np ts by (simp add: queue_ok_def m'_def)
  with run vp pl bf dm show ?thesis by blast
qed


subsection \<open>What sorting does to a queue\<close>

lemma payload_nonul: "payload m a = Some s \<Longrightarrow> NUL \<notin> set s"
  by (erule payloadD) (rule c_string_nonul)

lemma queue_ok_keys:
  assumes "queue_ok m qa as"
  shows "\<forall>a \<in> set as. payload m a = Some (the (payload m a))"
proof
  fix a assume "a \<in> set as"
  with queue_ok_payload[OF assms, of a] show "payload m a = Some (the (payload m a))" by auto
qed

lemma sorted_strcmp:
  assumes "sorted ss" "\<forall>s \<in> set ss. NUL \<notin> set s"
  shows "sorted_wrt (\<lambda>s t. strcmp_s s t \<le> 0) ss"
proof -
  have "sorted_wrt (\<le>) ss" using assms(1) by simp
  then show ?thesis
  proof (rule sorted_wrt_mono_rel[rotated])
    fix s t assume "s \<in> set ss" "t \<in> set ss" "s \<le> t"
    with assms(2) show "strcmp_s s t \<le> 0" by (simp add: strcmp_s_le)
  qed
qed

text \<open>
  Claim C3. \<^verbatim>\<open>q_sort\<close> returns, and the queue then holds the same cells, each with
  its string, in an order in which the strings never decrease under \<^verbatim>\<open>strcmp\<close> (which
  is the byte-wise lexicographic order of strings); the strings are a permutation of the
  ones before. A queue with at most one cell and a \<^verbatim>\<open>NULL\<close> queue pointer leave the
  memory as it is.
\<close>

theorem q_sort_sorted_permutation:
  assumes "queue_ok m qa as"
  shows "\<exists>m' as' ss. q_sort m (Some qa) = Some m' \<and>
           queue_ok m' qa as' \<and>
           mset as' = mset as \<and>
           (\<forall>b. payload m' b = payload m b) \<and>
           map (payload m') as' = map Some ss \<and>
           mset (map (payload m') as') = mset (map (payload m) as) \<and>
           sorted_wrt (\<lambda>s t. strcmp_s s t \<le> 0) ss \<and>
           sorted ss \<and>
           (length as \<le> 1 \<longrightarrow> m' = m) \<and>
           q_sort m0 None = Some m0"
proof -
  define key where "key = (\<lambda>a. the (payload m a))"
  let ?as' = "msort_abs (\<lambda>a b. key a < key b) as"
  have keys: "\<forall>a \<in> set as. payload m a = Some (key a)"
    unfolding key_def using assms by (rule queue_ok_keys)
  from q_sort_ok[OF assms keys] obtain m' where m': "q_sort m (Some qa) = Some m'"
    "queue_ok m' qa ?as'" "\<forall>b. payload m' b = payload m b" by blast
  have ms: "mset ?as' = mset as" by (rule mset_msort_abs)
  have pm: "map (payload m') ?as' = map Some (map key ?as')"
    using keys m'(3) by (simp add: set_msort_abs)
  from m'(3) have "payload m' = payload m" by (intro ext) simp
  then have "mset (map (payload m') ?as') = image_mset (payload m) (mset ?as')"
    by simp
  also have "\<dots> = mset (map (payload m) as)" by (simp only: ms mset_map)
  finally have pp: "mset (map (payload m') ?as') = mset (map (payload m) as)" .
  have so: "sorted (map key ?as')" by (rule sorted_msort_abs)
  have "\<forall>s \<in> set (map key ?as'). NUL \<notin> set s"
    using keys by (auto simp: set_msort_abs dest: payload_nonul)
  with so have sw: "sorted_wrt (\<lambda>s t. strcmp_s s t \<le> 0) (map key ?as')" by (rule sorted_strcmp)
  have sh: "length as \<le> 1 \<longrightarrow> m' = m" using q_sort_short[OF assms] m'(1) by auto
  from m' ms pm pp sw so sh q_sort_absent[of m0] show ?thesis by blast
qed

theorem q_sort_sorted_permutation_witness:
  "\<exists>m' as' ss. q_sort ex_three (Some 0) = Some m' \<and>
           queue_ok m' 0 as' \<and>
           mset as' = mset [1, 3, 5] \<and>
           (\<forall>b. payload m' b = payload ex_three b) \<and>
           map (payload m') as' = map Some ss \<and>
           mset (map (payload m') as') = mset (map (payload ex_three) [1, 3, 5]) \<and>
           sorted_wrt (\<lambda>s t. strcmp_s s t \<le> 0) ss \<and>
           sorted ss \<and>
           (length [1::nat, 3, 5] \<le> 1 \<longrightarrow> m' = ex_three) \<and>
           q_sort ex_three None = Some ex_three"
proof -
  have "queue_ok ex_three 0 [1, 3, 5]"
    by (simp add: queue_ok_def ex_three_def payload_def valptr_def c_string_def)
  from q_sort_sorted_permutation[OF this] show ?thesis .
qed


subsection \<open>Cells with equal strings\<close>

lemma merge_tie:
  assumes "islist (nodes m) (Some a1) xs" "islist (nodes m) (Some a2) ys" "set xs \<inter> set ys = {}"
    "\<forall>a \<in> set xs \<union> set ys. payload m a \<noteq> None" "payload m a1 = payload m a2"
  shows "\<exists>m'. merge m (Some a1) (Some a2) = Some (Some a2, m')"
proof -
  define key where "key = (\<lambda>a. the (payload m a))"
  from assms(4) have keys: "\<forall>a \<in> set xs \<union> set ys. payload m a = Some (key a)"
    by (auto simp: key_def)
  from assms(1) obtain xs' where xs: "xs = a1 # xs'" by (cases xs) auto
  from assms(2) obtain ys' where ys: "ys = a2 # ys'" by (cases ys) auto
  from assms(5) have "\<not> key a1 < key a2" by (simp add: key_def)
  then have ma: "merge_abs (\<lambda>a b. key a < key b) xs ys = a2 # merge_abs (\<lambda>a b. key a < key b) xs ys'"
    by (simp add: xs ys)
  from merge_correct[OF assms(1,2,3) keys] obtain r m' where
    r: "merge m (Some a1) (Some a2) = Some (r, m')"
    "islist (nodes m') r (merge_abs (\<lambda>a b. key a < key b) xs ys)" by blast
  from r(2) have "r = Some a2" by (simp add: ma)
  with r(1) show ?thesis by simp
qed

lemma q_sort_filter:
  assumes "queue_ok m qa as"
  shows "\<exists>m' as'. q_sort m (Some qa) = Some m' \<and>
           queue_ok m' qa as' \<and>
           (\<forall>b. payload m' b = payload m b) \<and>
           (\<forall>s. filter (\<lambda>a. payload m a = Some s) as' = rev (filter (\<lambda>a. payload m a = Some s) as))"
proof -
  define key where "key = (\<lambda>a. the (payload m a))"
  let ?as' = "msort_abs (\<lambda>a b. key a < key b) as"
  have keys: "\<forall>a \<in> set as. payload m a = Some (key a)"
    unfolding key_def using assms by (rule queue_ok_keys)
  from q_sort_ok[OF assms keys] obtain m' where m': "q_sort m (Some qa) = Some m'"
    "queue_ok m' qa ?as'" "\<forall>b. payload m' b = payload m b" by blast
  have "filter (\<lambda>a. payload m a = Some s) ?as' = rev (filter (\<lambda>a. payload m a = Some s) as)" for s
  proof -
    have "filter (\<lambda>a. payload m a = Some s) ?as' = filter (\<lambda>a. key a = s) ?as'"
      using keys by (intro filter_cong) (auto simp: set_msort_abs)
    also have "\<dots> = rev (filter (\<lambda>a. key a = s) as)" by (rule filter_msort_abs)
    also have "filter (\<lambda>a. key a = s) as = filter (\<lambda>a. payload m a = Some s) as"
      using keys by (intro filter_cong) auto
    finally show ?thesis .
  qed
  with m' show ?thesis by blast
qed

text \<open>
  Claim C2, as the code has it. \<^verbatim>\<open>list_cmp\<close> is true only for a strictly smaller
  first string, so on equal strings \<^verbatim>\<open>merge\<close> takes the head of its second argument,
  and after \<^verbatim>\<open>q_sort\<close> the cells that hold one and the same string stand in the
  reverse of the order they had before.
\<close>

theorem q_sort_reverses_equal:
  assumes "queue_ok m qa as"
    and "islist (nodes m1) (Some a1) xs" "islist (nodes m1) (Some a2) ys" "set xs \<inter> set ys = {}"
    and "\<forall>a \<in> set xs \<union> set ys. payload m1 a \<noteq> None" "payload m1 a1 = payload m1 a2"
  shows "(\<exists>m' as'. q_sort m (Some qa) = Some m' \<and>
            queue_ok m' qa as' \<and>
            (\<forall>b. payload m' b = payload m b) \<and>
            (\<forall>s. filter (\<lambda>a. payload m a = Some s) as' =
                 rev (filter (\<lambda>a. payload m a = Some s) as))) \<and>
         (\<exists>m'. merge m1 (Some a1) (Some a2) = Some (Some a2, m'))"
  using q_sort_filter[OF assms(1)] merge_tie[OF assms(2-6)] by (rule conjI)

theorem q_sort_reverses_equal_witness:
  "(\<exists>m' as'. q_sort ex_equal (Some 0) = Some m' \<and>
            queue_ok m' 0 as' \<and>
            (\<forall>b. payload m' b = payload ex_equal b) \<and>
            (\<forall>s. filter (\<lambda>a. payload ex_equal a = Some s) as' =
                 rev (filter (\<lambda>a. payload ex_equal a = Some s) [1, 3]))) \<and>
         (\<exists>m'. merge ex_runs (Some 1) (Some 3) = Some (Some 3, m'))"
proof -
  have "queue_ok ex_equal 0 [1, 3]"
    by (simp add: queue_ok_def ex_equal_def payload_def valptr_def c_string_def)
  moreover have "islist (nodes ex_runs) (Some 1) [1]" "islist (nodes ex_runs) (Some 3) [3]"
    "set [1::nat] \<inter> set [3] = {}" "\<forall>a \<in> set [1] \<union> set [3]. payload ex_runs a \<noteq> None"
    "payload ex_runs 1 = payload ex_runs 3"
    by (simp_all add: ex_runs_def payload_def valptr_def c_string_def)
  ultimately show ?thesis by (rule q_sort_reverses_equal)
qed

text \<open>
  The queue of the cells 1 and 3, which hold equal strings in this order, holds them in
  the order 3, 1 after \<^verbatim>\<open>q_sort\<close>: the sort is not stable.
\<close>

theorem q_sort_unstable:
  "queue_ok ex_equal 0 [1, 3] \<and>
   payload ex_equal 1 = payload ex_equal 3 \<and>
   q_sort ex_equal (Some 0) \<noteq> None \<and>
   queue_ok (the (q_sort ex_equal (Some 0))) 0 [3, 1]"
proof -
  have ok: "queue_ok ex_equal 0 [1, 3]"
    by (simp add: queue_ok_def ex_equal_def payload_def valptr_def c_string_def)
  have eq: "payload ex_equal 1 = payload ex_equal 3"
    by (simp add: ex_equal_def payload_def valptr_def c_string_def)
  have keys: "\<forall>a \<in> set [1, 3]. payload ex_equal a = Some ((\<lambda>a. ''a'') a)"
    by (simp add: ex_equal_def payload_def valptr_def c_string_def)
  have "msort_abs (\<lambda>a b. (\<lambda>a. ''a'') a < (\<lambda>a. ''a'') b) [1::nat, 3] = [3, 1]"
    by (simp add: msort_abs_long msort_abs_short)
  with q_sort_ok[OF ok keys] obtain m' where "q_sort ex_equal (Some 0) = Some m'"
    "queue_ok m' 0 [3, 1]" by auto
  with ok eq show ?thesis by simp
qed


subsection \<open>Successful insertions\<close>








subsection \<open>The structural invariant\<close>

lemma islist_reaches_last:
  assumes "islist h p as" "as \<noteq> []"
  shows "nth_cell h p (length as - 1) = Some (last as)"
proof -
  from assms(2) have "length as - 1 < length as" by simp
  from nth_cell_islist[OF assms(1) this] assms(2) show ?thesis by (simp add: last_conv_nth)
qed

lemma islist_empty_iff: "islist h p as \<Longrightarrow> (as = []) = (p = None)"
  by (cases as) auto

lemma queue_ok_code_invariant:
  assumes "queue_ok m qa as"
  shows "code_invariant m qa"
proof -
  from assms obtain Q where Q: "queues m qa = Some Q" "islist (nodes m) (head Q) as"
    "qsize Q = int (length as)" "as \<noteq> [] \<Longrightarrow> tail Q = Some (last as)"
    by (auto elim!: queue_okD)
  have e: "(qsize Q = 0) = (head Q = None)" using Q(3) islist_empty_iff[OF Q(2)] by simp
  show ?thesis
  proof (cases "as = []")
    case True
    with Q e show ?thesis by (simp add: code_invariant_def)
  next
    case False
    from islist_last[OF Q(2) False] obtain te where "nodes m (last as) = Some te" "ele_next te = None"
      by blast
    moreover have "nat (qsize Q) - 1 = length as - 1" using Q(3) by simp
    ultimately show ?thesis
      using Q(1,3) Q(4)[OF False] e islist_reaches_last[OF Q(2) False]
      by (simp add: code_invariant_def)
  qed
qed

lemma queue_ok_structural:
  assumes "queue_ok m qa as" "as \<noteq> []"
  shows "structural_invariant m qa"
proof -
  from assms obtain Q where Q: "queues m qa = Some Q" "islist (nodes m) (head Q) as"
    "qsize Q = int (length as)" "tail Q = Some (last as)"
    by (auto elim!: queue_okD)
  from queue_ok_code_invariant[OF assms(1)] Q(1,3,4) assms(2) show ?thesis
    by (simp add: code_invariant_def structural_invariant_def)
qed


subsection \<open>Insertion, removal, insertion\<close>

lemma q_insert_either:
  assumes "queue_ok m qa []" "bufs m s = Some sb" "c_string sb = Some str"
    "nodes m a = None" "bufs m v = None"
  shows "\<exists>m'. (if b then q_insert_head else q_insert_tail) (Some a) (Some v) m (Some qa) s = Some (True, m') \<and>
           queue_ok m' qa [a] \<and> payload m' a = Some str \<and> valptr m' a = Some v \<and>
           bufs m' = (bufs m)(v \<mapsto> str @ [NUL])"
proof (cases b)
  case True
  with q_insert_head_ok[OF assms] show ?thesis by auto
next
  case False
  with q_insert_tail_ok[OF assms] show ?thesis by auto
qed

lemma queue_ok_single:
  assumes "queue_ok m qa [a]"
  shows "queues m qa = Some \<lparr>head = Some a, tail = Some a, qsize = 1\<rparr>"
proof -
  from assms obtain Q where Q: "queues m qa = Some Q" "head Q = Some a" "tail Q = Some a" "qsize Q = 1"
    by (auto simp: queue_ok_def split: option.splits)
  then have "Q = \<lparr>head = Some a, tail = Some a, qsize = 1\<rparr>" by (cases Q) simp
  with Q(1) show ?thesis by simp
qed

lemma c_string_out_bytes:
  assumes "NUL \<notin> set str" "1 \<le> bufsize"
  shows "c_string (out_bytes str bufsize d) = Some (take (bufsize - 1) str)"
proof -
  from assms(1) have "NUL \<notin> set (take (bufsize - 1) str)" by (auto dest: in_set_takeD)
  then show ?thesis using assms(2) by (simp add: out_bytes_def c_string_terminated)
qed

lemma insert_remove_insert:
  assumes ok: "queue_ok m qa []" and s: "bufs m s = Some sb" "c_string sb = Some str"
    and fresh: "nodes m a = None" "bufs m v = None"
    and sp: "bufs m spa = Some d" "1 \<le> bufsize" "min (length str + 1) bufsize \<le> length d"
    and small: "length str + 1 < 2 ^ 31"
  shows "\<exists>m1 m2 d'.
           (if b1 then q_insert_head else q_insert_tail) (Some a) (Some v) m (Some qa) s = Some (True, m1) \<and>
           q_remove_head m1 (Some qa) (Some spa) bufsize = Some (True, m2) \<and>
           bufs m2 spa = Some d' \<and> c_string d' = Some (take (bufsize - 1) str) \<and>
           queue_ok m2 qa [] \<and> q_size m2 (Some qa) = Some 0 \<and>
           map_option head (queues m2 qa) = Some None \<and>
           map_option tail (queues m2 qa) = Some (Some a) \<and> nodes m2 a = None \<and>
           (\<forall>a' v' s' sb' str'.
              bufs m2 s' = Some sb' \<and> c_string sb' = Some str' \<and> length str' + 1 < 2 ^ 31 \<and>
              nodes m2 a' = None \<and> bufs m2 v' = None \<longrightarrow>
              (\<exists>m3. (if b2 then q_insert_head else q_insert_tail) (Some a') (Some v') m2 (Some qa) s' = Some (True, m3) \<and>
                 queue_ok m3 qa [a'] \<and> payload m3 a' = Some str' \<and>
                 structural_invariant m3 qa \<and>
                 queues m3 qa = Some \<lparr>head = Some a', tail = Some a', qsize = 1\<rparr>))"
proof -
  from q_insert_either[OF ok s fresh, of b1] obtain m1 where m1:
    "(if b1 then q_insert_head else q_insert_tail) (Some a) (Some v) m (Some qa) s = Some (True, m1)"
    "queue_ok m1 qa [a]" "payload m1 a = Some str" "valptr m1 a = Some v"
    "bufs m1 = (bufs m)(v \<mapsto> str @ [NUL])" by blast
  from sp(1) fresh(2) have ne: "spa \<noteq> v" by auto
  with m1(5) sp(1) have sp1: "bufs m1 spa = Some d" by simp
  from ne m1(4) have al: "Some spa \<notin> set (map (valptr m1) [a])" by simp
  have rs: "real_buf_size bufsize (length str) = min bufsize (length str + 1)"
    using small by (rule real_buf_size_small)
  have cap: "min (length str + 1) (real_buf_size bufsize (length str)) \<le> length d"
    using sp(3) unfolding rs by simp
  have ob: "out_bytes str (real_buf_size bufsize (length str)) d = out_bytes str bufsize d"
    using small by (rule out_bytes_real_small)
  from q_remove_head_ok[OF m1(2,3) sp1 al cap] obtain m2 where m2:
    "q_remove_head m1 (Some qa) (Some spa) bufsize = Some (True, m2)"
    "queue_ok m2 qa []" "nodes m2 = (nodes m1)(a := None)"
    "bufs m2 spa = Some (out_bytes str bufsize d)" "q_size m2 (Some qa) = Some (int (length ([]::addr list)))"
    "map_option tail (queues m2 qa) = map_option tail (queues m1 qa)" unfolding ob by blast
  have cs: "c_string (out_bytes str bufsize d) = Some (take (bufsize - 1) str)"
    using c_string_nonul[OF s(2)] sp(2) by (rule c_string_out_bytes)
  have hd2: "map_option head (queues m2 qa) = Some None"
    using m2(2) by (auto simp: queue_ok_def split: option.splits)
  have tl2: "map_option tail (queues m2 qa) = Some (Some a)"
    using m2(6) queue_ok_single[OF m1(2)] by simp
  have second: "\<exists>m3. (if b2 then q_insert_head else q_insert_tail) (Some a') (Some v') m2 (Some qa) s' = Some (True, m3) \<and>
                 queue_ok m3 qa [a'] \<and> payload m3 a' = Some str' \<and>
                 structural_invariant m3 qa \<and>
                 queues m3 qa = Some \<lparr>head = Some a', tail = Some a', qsize = 1\<rparr>"
    if "bufs m2 s' = Some sb'" "c_string sb' = Some str'" "nodes m2 a' = None" "bufs m2 v' = None"
    for a' v' s' sb' str'
  proof -
    from q_insert_either[OF m2(2) that, of b2] obtain m3 where m3:
      "(if b2 then q_insert_head else q_insert_tail) (Some a') (Some v') m2 (Some qa) s' = Some (True, m3)"
      "queue_ok m3 qa [a']" "payload m3 a' = Some str'" by blast
    from m3(2) have "structural_invariant m3 qa" by (rule queue_ok_structural) simp
    with m3 queue_ok_single[OF m3(2)] show ?thesis by blast
  qed
  have n2: "nodes m2 a = None" using m2(3) by simp
  have z2: "q_size m2 (Some qa) = Some 0" using m2(5) by simp
  show ?thesis
    apply (rule exI[of _ m1], rule exI[of _ m2], rule exI[of _ "out_bytes str bufsize d"])
    apply (intro conjI)
             apply (rule m1(1))
            apply (rule m2(1))
           apply (rule m2(4))
          apply (rule cs)
         apply (rule m2(2))
        apply (rule z2)
       apply (rule hd2)
      apply (rule tl2)
     apply (rule n2)
    using second by blast
qed



text \<open>
  Claim C4. The texts inserted are shorter than \<open>2 ^ 31 - 1\<close> bytes, so that the
  \<^verbatim>\<open>int\<close> variable \<^verbatim>\<open>strLen\<close> holds \<open>strlen + 1\<close>.
  An insertion into an empty queue followed by \<^verbatim>\<open>q_remove_head\<close> with a
  capacity of at least 1 leaves in the caller's buffer the inserted text cut to
  \<open>bufsize - 1\<close> characters, and an empty queue of size 0. The tail pointer still holds
  the address of the released cell, but every later successful insertion, at the head or
  at the tail, gives a queue of exactly the new cell, with head and tail both pointing at
  it and the count 1: the insertions test the count and never read the old tail pointer.
\<close>

theorem q_insert_remove_insert:
  assumes "queue_ok m qa []" and "bufs m s = Some sb" "c_string sb = Some str"
    and "nodes m a = None" "bufs m v = None"
    and "bufs m spa = Some d" "1 \<le> bufsize" "min (length str + 1) bufsize \<le> length d"
    and "length str + 1 < 2 ^ 31"
  shows "\<exists>m1 m2 d'.
           (if b1 then q_insert_head else q_insert_tail) (Some a) (Some v) m (Some qa) s = Some (True, m1) \<and>
           q_remove_head m1 (Some qa) (Some spa) bufsize = Some (True, m2) \<and>
           bufs m2 spa = Some d' \<and> c_string d' = Some (take (bufsize - 1) str) \<and>
           queue_ok m2 qa [] \<and> q_size m2 (Some qa) = Some 0 \<and>
           map_option head (queues m2 qa) = Some None \<and>
           map_option tail (queues m2 qa) = Some (Some a) \<and> nodes m2 a = None \<and>
           (\<forall>a' v' s' sb' str'.
              bufs m2 s' = Some sb' \<and> c_string sb' = Some str' \<and> length str' + 1 < 2 ^ 31 \<and>
              nodes m2 a' = None \<and> bufs m2 v' = None \<longrightarrow>
              (\<exists>m3. (if b2 then q_insert_head else q_insert_tail) (Some a') (Some v') m2 (Some qa) s' = Some (True, m3) \<and>
                 queue_ok m3 qa [a'] \<and> payload m3 a' = Some str' \<and>
                 structural_invariant m3 qa \<and>
                 queues m3 qa = Some \<lparr>head = Some a', tail = Some a', qsize = 1\<rparr>))"
  using assms by (rule insert_remove_insert)

theorem q_insert_remove_insert_witness:
  "\<exists>m1 m2 d'.
           (if True then q_insert_head else q_insert_tail) (Some 1) (Some 2) ex_empty (Some 0) 10 = Some (True, m1) \<and>
           q_remove_head m1 (Some 0) (Some 20) 4 = Some (True, m2) \<and>
           bufs m2 20 = Some d' \<and> c_string d' = Some (take (4 - 1) ''banana'') \<and>
           queue_ok m2 0 [] \<and> q_size m2 (Some 0) = Some 0 \<and>
           map_option head (queues m2 0) = Some None \<and>
           map_option tail (queues m2 0) = Some (Some 1) \<and> nodes m2 1 = None \<and>
           (\<forall>a' v' s' sb' str'.
              bufs m2 s' = Some sb' \<and> c_string sb' = Some str' \<and> length str' + 1 < 2 ^ 31 \<and>
              nodes m2 a' = None \<and> bufs m2 v' = None \<longrightarrow>
              (\<exists>m3. (if False then q_insert_head else q_insert_tail) (Some a') (Some v') m2 (Some 0) s' = Some (True, m3) \<and>
                 queue_ok m3 0 [a'] \<and> payload m3 a' = Some str' \<and>
                 structural_invariant m3 0 \<and>
                 queues m3 0 = Some \<lparr>head = Some a', tail = Some a', qsize = 1\<rparr>))"
proof -
  have "queue_ok ex_empty 0 []" "bufs ex_empty 10 = Some (''banana'' @ [NUL])"
    "c_string (''banana'' @ [NUL]) = Some ''banana''" "nodes ex_empty 1 = None" "bufs ex_empty 2 = None"
    "bufs ex_empty 20 = Some ''XXXX''" "(1::nat) \<le> 4" "min (length ''banana'' + 1) 4 \<le> length ''XXXX''"
    "length ''banana'' + 1 < 2 ^ 31"
    by (simp_all add: queue_ok_def ex_empty_def c_string_def)
  from q_insert_remove_insert[OF this] show ?thesis .
qed

subsection \<open>Every operation keeps the invariant of the code\<close>









end
